theory Spec2Isabelle
  imports Main "HOL-Library.Sublist"
begin

section \<open>Python strings\<close>

text \<open>
  A Python \<open>str\<close> is modelled as a HOL \<open>string\<close>. Each \<open>char\<close> stands for one
  code point, so \<open>length\<close> is Python's \<open>len\<close>; the model covers the code points
  below 256. The character tables below (\<open>isspace\<close>, \<open>lower\<close>) are Python's, restricted
  to that range.
\<close>

abbreviation NL :: char where "NL \<equiv> CHR 0x0A"
abbreviation CR :: char where "CR \<equiv> CHR 0x0D"
abbreviation DQ :: char where "DQ \<equiv> CHR 0x22"
abbreviation SQ :: char where "SQ \<equiv> CHR 0x27"

text \<open>\<open>s.replace(c, r)\<close> for a one-character pattern \<open>c\<close>.\<close>

definition replace_char :: "char \<Rightarrow> string \<Rightarrow> string \<Rightarrow> string" where
  "replace_char c r s = concat (map (\<lambda>x. if x = c then r else [x]) s)"

text \<open>
  \<open>html.escape(s)\<close> of the standard library, with its default \<open>quote=True\<close>: five
  replacements, the ampersand first.
\<close>

definition html_escape :: "string \<Rightarrow> string" where
  "html_escape s =
     replace_char SQ ''&#x27;''
       (replace_char DQ ''&quot;''
         (replace_char (CHR ''>'') ''&gt;''
           (replace_char (CHR ''<'') ''&lt;''
             (replace_char (CHR ''&'') ''&amp;'' s))))"

text \<open>\<open>c.isspace()\<close>: the whitespace code points below 256.\<close>

definition isspace :: "char \<Rightarrow> bool" where
  "isspace c \<longleftrightarrow>
     (let n = (of_char c :: nat)
      in (9 \<le> n \<and> n \<le> 13) \<or> (28 \<le> n \<and> n \<le> 32) \<or> n = 133 \<or> n = 160)"

text \<open>\<open>s.strip()\<close>: whitespace removed at both ends.\<close>

definition strip :: "string \<Rightarrow> string" where
  "strip s = rev (dropWhile isspace (rev (dropWhile isspace s)))"

text \<open>
  \<open>s.lower()\<close>: below 256 the cased code points are A-Z and the Latin-1 capitals
  (192-222 without the multiplication sign 215); each lowers to the code point 32 above.
\<close>

definition lower_char :: "char \<Rightarrow> char" where
  "lower_char c =
     (let n = (of_char c :: nat)
      in if (65 \<le> n \<and> n \<le> 90) \<or> (192 \<le> n \<and> n \<le> 222 \<and> n \<noteq> 215)
         then char_of (n + 32) else c)"

definition lower :: "string \<Rightarrow> string" where
  "lower s = map lower_char s"

text \<open>\<open>needle in s\<close> on strings: \<open>needle\<close> occurs in \<open>s\<close> as a contiguous run.\<close>

fun str_contains :: "string \<Rightarrow> string \<Rightarrow> bool" where
  "str_contains needle [] = (needle = [])"
| "str_contains needle (c # cs) = (prefix needle (c # cs) \<or> str_contains needle cs)"

text \<open>
  \<open>s[:n]\<close> for a Python integer \<open>n\<close>: the first \<open>n\<close> items when \<open>n \<ge> 0\<close>, and all but
  the last \<open>-n\<close> items when \<open>n < 0\<close>.
\<close>

definition slice_to :: "int \<Rightarrow> 'a list \<Rightarrow> 'a list" where
  "slice_to n xs = (if 0 \<le> n then take (nat n) xs else take (nat (int (length xs) + n)) xs)"

text \<open>Decimal rendering of a count inside an f-string.\<close>

fun str_nat :: "nat \<Rightarrow> string" where
  "str_nat n =
     (if n < 10 then [char_of (48 + n)] else str_nat (n div 10) @ [char_of (48 + n mod 10)])"

declare str_nat.simps [simp del]

section \<open>Configuration\<close>

definition RSS_FEED_URL :: string where
  "RSS_FEED_URL = ''https://rss.app/feeds/OUYIM0VGlxqKueAS.xml''"

definition SENT_ITEMS_FILE :: string where
  "SENT_ITEMS_FILE = ''sent_rss_items.txt''"

definition MAX_MESSAGE_LENGTH :: nat where
  "MAX_MESSAGE_LENGTH = 4096"

section \<open>Feed entries\<close>

text \<open>
  An entry of the parsed feed is read through five keys only. Each key is absent
  (\<open>None\<close>) or holds a string; \<open>entry.get(k, d)\<close> is \<open>dict_get\<close>.
\<close>

record entry =
  entry_id :: "string option"
  entry_link :: "string option"
  entry_title :: "string option"
  entry_summary :: "string option"
  entry_description :: "string option"

definition dict_get :: "'a option \<Rightarrow> 'a \<Rightarrow> 'a" where
  "dict_get v d = (case v of None \<Rightarrow> d | Some x \<Rightarrow> x)"

text \<open>
  \<open>item_id = entry.get("id", entry.get("link"))\<close>: the link is the default for an absent
  \<open>id\<close> key, and the result is \<open>None\<close> when both keys are absent.
\<close>

definition item_id_of :: "entry \<Rightarrow> string option" where
  "item_id_of e = (case entry_id e of Some i \<Rightarrow> Some i | None \<Rightarrow> entry_link e)"

text \<open>Truthiness of a value that is \<open>None\<close> or a string.\<close>

definition truthy :: "string option \<Rightarrow> bool" where
  "truthy v \<longleftrightarrow> (case v of None \<Rightarrow> False | Some x \<Rightarrow> x \<noteq> [])"

section \<open>Message composition\<close>

text \<open>
  The full message of \<open>check_rss_feed\<close>: the title block, the description (truncated
  against \<open>max_desc_len\<close>, which may be negative) and the link element or the footer.
\<close>

definition max_desc_len :: "string \<Rightarrow> string \<Rightarrow> int" where
  "max_desc_len message link =
     int MAX_MESSAGE_LENGTH - int (length message) - int (length link) - 50"

definition full_message :: "string \<Rightarrow> string \<Rightarrow> string \<Rightarrow> string" where
  "full_message title link description =
     (let message = ''<b>'' @ html_escape title @ ''</b>'' @ [NL, NL];
          message =
            (if description \<noteq> [] then
               (let description =
                      (if int (length description) > max_desc_len message link
                       then slice_to (max_desc_len message link) description @ ''...''
                       else description)
                in message @ description @ [NL, NL])
             else message)
      in if link \<noteq> [] then message @ ''<a href='' @ [DQ] @ html_escape link @ [DQ] @ ''>Read more</a>''
         else message @ ''No link available.'')"

text \<open>The shorter message sent after a "message is too long" failure.\<close>

definition short_message :: "string \<Rightarrow> string \<Rightarrow> string" where
  "short_message title link =
     ''<b>'' @ html_escape title @ ''</b>'' @ [NL, NL] @ ''<a href='' @ [SQ] @ html_escape link @ [SQ]
       @ ''>Read more</a>''"

section \<open>State of the bot and its surroundings\<close>

text \<open>
  The mutable state of the process: the global set \<open>sent_item_ids\<close>, the contents of the
  file \<open>SENT_ITEMS_FILE\<close> (\<open>None\<close> while the file does not exist), the records the logger
  has received, and the calls made to \<open>context.bot.send_message\<close>, oldest first. Reading
  and appending to the file are taken to succeed.
\<close>

datatype level = INFO | WARNING | ERROR

text \<open>
  An exception; the code reads nothing of it but \<open>str(e)\<close> and its class. \<open>Exception m\<close> is
  an instance of the class \<open>Exception\<close>, which the three handlers \<open>except Exception\<close> catch.
  \<open>BaseException m\<close> is an instance of \<open>BaseException\<close> that is not one of \<open>Exception\<close>
  (\<open>asyncio.CancelledError\<close>, \<open>KeyboardInterrupt\<close>, \<open>SystemExit\<close>), which they let through.
\<close>

datatype exn = Exception string | BaseException string

fun str_of :: "exn \<Rightarrow> string" where
  "str_of (Exception m) = m"
| "str_of (BaseException m) = m"

text \<open>\<open>isinstance(e, Exception)\<close>: what an \<open>except Exception\<close> clause tests.\<close>

fun is_exception :: "exn \<Rightarrow> bool" where
  "is_exception (Exception m) = True"
| "is_exception (BaseException m) = False"

datatype send_result = Delivered | Raised exn

text \<open>
  One call of \<open>send_message\<close>: the chat and text passed and how the call ended. The last
  three fields are annotations for the statements below (the entry being processed, its
  \<open>item_id\<close>, and whether the text is the shorter message); the transport never sees them.
\<close>

record send_event =
  ev_chat :: string
  ev_text :: string
  ev_result :: send_result
  ev_entry :: entry
  ev_item_id :: string
  ev_short :: bool

record bot_state =
  sent_item_ids :: "string set"
  sent_items_file :: "string option"
  logged :: "(level \<times> string) list"
  sends :: "send_event list"

text \<open>
  The messaging endpoint: given the number of earlier calls, the chat and the text, the
  awaited call returns or raises.
\<close>

type_synonym transport = "nat \<Rightarrow> string \<Rightarrow> string \<Rightarrow> send_result"

text \<open>
  The call \<open>asyncio.sleep(1)\<close> awaited after a send that returned: given the number of
  calls made to the endpoint so far, it returns (\<open>None\<close>) or raises; \<open>CancelledError\<close> when the
  job is cancelled during the pause, \<open>NameError\<close> when the name \<open>asyncio\<close> is not bound (the
  module imports it only when it is run as a script).
\<close>

type_synonym pause = "nat \<Rightarrow> exn option"

text \<open>
  What a poll cycle reads besides the state: the environment variable \<open>CHAT_ID\<close>, the two
  keys of \<open>context.bot_data\<close>, the endpoint and the pause.
\<close>

record bot_env =
  TARGET_CHAT_ID :: "string option"
  chat_id_confirmed :: bool
  user_chat_id :: "string option"
  bot :: transport
  asyncio_sleep :: pause

text \<open>
  The result of \<open>feedparser.parse(RSS_FEED_URL)\<close>: the call raises, or returns a feed with
  its \<open>bozo\<close> flag, the text of \<open>bozo_exception\<close> and its entries in the feed's order.
\<close>

record feed =
  feed_bozo :: bool
  feed_bozo_exception :: string
  feed_entries :: "entry list"

datatype fetch_result = ParseRaised exn | Parsed feed

definition initial_state :: bot_state where
  "initial_state = \<lparr>sent_item_ids = {}, sent_items_file = None, logged = [], sends = []\<rparr>"

definition logger :: "level \<Rightarrow> string \<Rightarrow> bot_state \<Rightarrow> bot_state" where
  "logger l m s = s\<lparr>logged := logged s @ [(l, m)]\<rparr>"

section \<open>The sent-item store\<close>

text \<open>
  Reading a text file opened with \<open>open(name, "r")\<close>: the universal-newline translation
  turns \<open>\r\n\<close> and a lone \<open>\r\<close> into \<open>\n\<close>, and iterating over the file yields its lines,
  each with its terminating \<open>\n\<close> (the last line may have none).
\<close>

fun universal_newlines :: "string \<Rightarrow> string" where
  "universal_newlines [] = []"
| "universal_newlines [c] = (if c = CR then [NL] else [c])"
| "universal_newlines (c # d # cs) =
     (if c = CR \<and> d = NL then NL # universal_newlines cs
      else if c = CR then NL # universal_newlines (d # cs)
      else c # universal_newlines (d # cs))"

fun split_lines :: "string \<Rightarrow> string list" where
  "split_lines [] = []"
| "split_lines (c # cs) =
     (if c = NL then [NL] # split_lines cs
      else (case split_lines cs of [] \<Rightarrow> [[c]] | l # ls \<Rightarrow> (c # l) # ls))"

definition file_lines :: "string \<Rightarrow> string list" where
  "file_lines content = split_lines (universal_newlines content)"

text \<open>The ids a load reads from a file with the given contents.\<close>

definition loaded_ids :: "string \<Rightarrow> string set" where
  "loaded_ids content = strip ` set (filter (\<lambda>line. strip line \<noteq> []) (file_lines content))"

definition file_text :: "bot_state \<Rightarrow> string" where
  "file_text s = (case sent_items_file s of None \<Rightarrow> [] | Some content \<Rightarrow> content)"

definition load_sent_items :: "bot_state \<Rightarrow> bot_state" where
  "load_sent_items s =
     (let s1 = (case sent_items_file s of
                  None \<Rightarrow> s
                | Some content \<Rightarrow>
                    s\<lparr>sent_item_ids :=
                        strip ` set (filter (\<lambda>line. strip line \<noteq> []) (file_lines content))\<rparr>)
      in logger INFO (''Loaded '' @ str_nat (card (sent_item_ids s1)) @ '' sent item IDs from ''
                        @ SENT_ITEMS_FILE) s1)"

definition save_sent_item :: "string \<Rightarrow> bot_state \<Rightarrow> bot_state" where
  "save_sent_item item_id s =
     s\<lparr>sent_item_ids := insert item_id (sent_item_ids s),
       sent_items_file := Some (file_text s @ item_id @ [NL])\<rparr>"

section \<open>The poll cycle\<close>

definition send_message ::
  "transport \<Rightarrow> string \<Rightarrow> string \<Rightarrow> entry \<Rightarrow> string \<Rightarrow> bool \<Rightarrow> bot_state \<Rightarrow> send_result \<times> bot_state" where
  "send_message api chat text e item_id short s =
     (let r = api (length (sends s)) chat text
      in (r, s\<lparr>sends := sends s @
                 [\<lparr>ev_chat = chat, ev_text = text, ev_result = r, ev_entry = e,
                   ev_item_id = item_id, ev_short = short\<rparr>]\<rparr>))"

text \<open>
  The handler of lines 110 to 124, entered with an \<open>Exception\<close> raised in the inner \<open>try\<close>
  block: log it, and when its text contains "message is too long" send the shorter
  message and save the id if that send returns. The handler of the shorter send catches
  an \<open>Exception\<close> only; anything else leaves the loop.
\<close>

definition on_send_error ::
  "transport \<Rightarrow> string \<Rightarrow> entry \<Rightarrow> string \<Rightarrow> string \<Rightarrow> string \<Rightarrow> exn \<Rightarrow> nat \<Rightarrow> bot_state
     \<Rightarrow> (exn + nat) \<times> bot_state" where
  "on_send_error api chat e item_id title link x new_items_found s =
     (let s1 = logger ERROR (''Error sending Telegram message for '' @ [SQ] @ title @ [SQ]
                               @ '': '' @ str_of x) s
      in if str_contains ''message is too long'' (lower (str_of x)) then
           (case send_message api chat (short_message title link) e item_id True s1 of
              (Delivered, s2) \<Rightarrow> (Inr (new_items_found + 1), save_sent_item item_id s2)
            | (Raised y, s2) \<Rightarrow>
                if is_exception y then
                  (Inr new_items_found,
                   logger ERROR (''Error sending SHORTER Telegram message for '' @ [SQ] @ title
                                   @ [SQ] @ '': '' @ str_of y) s2)
                else (Inl y, s2))
         else (Inr new_items_found, s1))"

text \<open>
  Lines 76 to 125 of \<open>check_rss_feed\<close>: compose the message of a new item and send it.
  When the send returns, the id is saved, the count goes up and the pause is awaited.
  The inner \<open>try\<close> block covers the send, the save and the pause, so an \<open>Exception\<close> raised
  by the send or by the pause enters the handler above (after a pause that raised, with
  the id saved and the count already raised); an exception that is not an \<open>Exception\<close>
  leaves the loop.
\<close>

definition send_item ::
  "transport \<Rightarrow> pause \<Rightarrow> string \<Rightarrow> entry \<Rightarrow> string \<Rightarrow> nat \<Rightarrow> bot_state \<Rightarrow> (exn + nat) \<times> bot_state" where
  "send_item api sleep chat e item_id new_items_found s =
     (let title = dict_get (entry_title e) ''No Title'';
          link = dict_get (entry_link e) [];
          description = dict_get (entry_summary e) (dict_get (entry_description e) []);
          message = full_message title link description
      in case send_message api chat message e item_id False s of
           (Delivered, s1) \<Rightarrow>
             (let s2 = save_sent_item item_id s1
              in case sleep (length (sends s2)) of
                   None \<Rightarrow> (Inr (new_items_found + 1), s2)
                 | Some x \<Rightarrow>
                     if is_exception x then
                       on_send_error api chat e item_id title link x (new_items_found + 1) s2
                     else (Inl x, s2))
         | (Raised x, s1) \<Rightarrow>
             if is_exception x then
               on_send_error api chat e item_id title link x new_items_found s1
             else (Inl x, s1))"

text \<open>
  The body of the loop, lines 67 to 125. The attribute access \<open>entry.title\<close> in the log
  call of line 74 raises \<open>AttributeError\<close> when the entry has no title.
\<close>

definition process_entry ::
  "transport \<Rightarrow> pause \<Rightarrow> string \<Rightarrow> entry \<Rightarrow> nat \<Rightarrow> bot_state \<Rightarrow> (exn + nat) \<times> bot_state" where
  "process_entry api sleep chat e new_items_found s =
     (case item_id_of e of
        None \<Rightarrow>
          (Inr new_items_found,
           logger WARNING (''Entry without id or link: '' @ dict_get (entry_title e) ''N/A'') s)
      | Some item_id \<Rightarrow>
          if item_id = [] then
            (Inr new_items_found,
             logger WARNING (''Entry without id or link: '' @ dict_get (entry_title e) ''N/A'') s)
          else if item_id \<notin> sent_item_ids s then
            (case entry_title e of
               None \<Rightarrow> (Inl (Exception (''object has no attribute '' @ [SQ] @ ''title'' @ [SQ])), s)
             | Some t \<Rightarrow>
                 send_item api sleep chat e item_id new_items_found
                   (logger INFO (''New item found: '' @ t) s))
          else (Inr new_items_found, s))"

text \<open>The loop over the entries; an exception leaves it at once.\<close>

fun process_entries ::
  "transport \<Rightarrow> pause \<Rightarrow> string \<Rightarrow> entry list \<Rightarrow> nat \<Rightarrow> bot_state \<Rightarrow> (exn + nat) \<times> bot_state" where
  "process_entries api sleep chat [] new_items_found s = (Inr new_items_found, s)"
| "process_entries api sleep chat (e # es) new_items_found s =
     (case process_entry api sleep chat e new_items_found s of
        (Inl x, s1) \<Rightarrow> (Inl x, s1)
      | (Inr n, s1) \<Rightarrow> process_entries api sleep chat es n s1)"

text \<open>The \<open>try\<close> block, lines 58 to 130.\<close>

definition try_block ::
  "transport \<Rightarrow> pause \<Rightarrow> string \<Rightarrow> fetch_result \<Rightarrow> bot_state \<Rightarrow> (exn + unit) \<times> bot_state" where
  "try_block api sleep chat fetched s =
     (case fetched of
        ParseRaised x \<Rightarrow> (Inl x, s)
      | Parsed f \<Rightarrow>
          if feed_bozo f then
            (Inr (), logger ERROR (''Error parsing RSS feed: '' @ feed_bozo_exception f) s)
          else
            (case process_entries api sleep chat (rev (feed_entries f)) 0 s of
               (Inl x, s1) \<Rightarrow> (Inl x, s1)
             | (Inr new_items_found, s1) \<Rightarrow>
                 (Inr (),
                  if new_items_found > 0 then
                    logger INFO (''Sent '' @ str_nat new_items_found @ '' new items to chat '' @ chat
                                   @ ''.'') s1
                  else logger INFO ''No new items found in this check.'' s1)))"

text \<open>
  \<open>check_rss_feed\<close>: the two early returns, then the \<open>try\<close> block with its handler, which
  catches an \<open>Exception\<close> and nothing else. The first component of the result says how the
  call ends: \<open>Inr ()\<close> when it returns, \<open>Inl x\<close> when \<open>x\<close> leaves it.
\<close>

definition check_rss_feed :: "bot_env \<Rightarrow> fetch_result \<Rightarrow> bot_state \<Rightarrow> (exn + unit) \<times> bot_state" where
  "check_rss_feed env fetched s =
     (if \<not> chat_id_confirmed env \<and> \<not> truthy (TARGET_CHAT_ID env) then
        (Inr (),
         logger WARNING
           ''TARGET_CHAT_ID not set and no /start command received yet. Skipping RSS check.'' s)
      else
        (let current_target_chat_id =
               (if truthy (TARGET_CHAT_ID env) then TARGET_CHAT_ID env else user_chat_id env)
         in if \<not> truthy current_target_chat_id then
              (Inr (), logger ERROR ''No target chat ID available to send messages.'' s)
            else
              (case try_block (bot env) (asyncio_sleep env) (dict_get current_target_chat_id [])
                      fetched (logger INFO (''Checking RSS feed: '' @ RSS_FEED_URL) s) of
                 (Inl x, s1) \<Rightarrow>
                   if is_exception x then
                     (Inr (),
                      logger ERROR (''An error occurred during RSS check: '' @ str_of x) s1)
                   else (Inl x, s1)
               | (Inr u, s1) \<Rightarrow> (Inr (), s1))))"

section \<open>What a cycle did\<close>

text \<open>
  The calls to the endpoint made between two states, and the ids of those that
  returned, in order.
\<close>

definition new_sends :: "bot_state \<Rightarrow> bot_state \<Rightarrow> send_event list" where
  "new_sends s s' = drop (length (sends s)) (sends s')"

definition delivered_ids :: "send_event list \<Rightarrow> string list" where
  "delivered_ids evs = map ev_item_id (filter (\<lambda>ev. ev_result ev = Delivered) evs)"

definition id_lines :: "string list \<Rightarrow> string" where
  "id_lines ids = concat (map (\<lambda>i. i @ [NL]) ids)"

text \<open>
  What the steps of a cycle keep true between an earlier state \<open>s\<close> and a later state
  \<open>s'\<close>: calls are only added; each added call is for an entry whose \<open>item_id\<close> is
  non-empty and was not in the set at \<open>s\<close>; the set and the file grow by exactly the ids of
  the calls that returned.
\<close>

definition cycle_step :: "bot_state \<Rightarrow> bot_state \<Rightarrow> bool" where
  "cycle_step s s' \<longleftrightarrow>
     sends s' = sends s @ new_sends s s' \<and>
     (\<forall>ev \<in> set (new_sends s s').
        ev_item_id ev \<notin> sent_item_ids s \<and> ev_item_id ev \<noteq> [] \<and>
        item_id_of (ev_entry ev) = Some (ev_item_id ev)) \<and>
     sent_item_ids s' = sent_item_ids s \<union> set (delivered_ids (new_sends s s')) \<and>
     file_text s' = file_text s @ id_lines (delivered_ids (new_sends s s')) \<and>
     (delivered_ids (new_sends s s') = [] \<longrightarrow> sent_items_file s' = sent_items_file s)"

text \<open>
  What the steps taken for one new entry \<open>e\<close> with \<open>item_id\<close> \<open>i\<close> keep true: calls are only
  added, each added call is for that entry, and the set and the file grow by exactly the
  ids of the calls that returned.
\<close>

definition item_step :: "string \<Rightarrow> entry \<Rightarrow> bot_state \<Rightarrow> bot_state \<Rightarrow> bool" where
  "item_step i e s s' \<longleftrightarrow>
     sends s' = sends s @ new_sends s s' \<and>
     (\<forall>ev \<in> set (new_sends s s'). ev_item_id ev = i \<and> ev_entry ev = e) \<and>
     sent_item_ids s' = sent_item_ids s \<union> set (delivered_ids (new_sends s s')) \<and>
     file_text s' = file_text s @ id_lines (delivered_ids (new_sends s s')) \<and>
     (delivered_ids (new_sends s s') = [] \<longrightarrow> sent_items_file s' = sent_items_file s)"

text \<open>The state a poll cycle leaves, and the calls it made.\<close>

definition poll :: "bot_env \<Rightarrow> fetch_result \<Rightarrow> bot_state \<Rightarrow> bot_state" where
  "poll env fetched s = snd (check_rss_feed env fetched s)"

definition cycle_sends :: "bot_env \<Rightarrow> fetch_result \<Rightarrow> bot_state \<Rightarrow> send_event list" where
  "cycle_sends env fetched s = new_sends s (poll env fetched s)"

text \<open>
  An entry is a delivery candidate in a state when its \<open>item_id\<close> is non-empty and not
  in \<open>sent_item_ids\<close>. The entries of the full-message calls among some calls, in order,
  are the entries whose delivery was attempted.
\<close>

definition candidate :: "bot_state \<Rightarrow> entry \<Rightarrow> bool" where
  "candidate s e \<longleftrightarrow> (case item_id_of e of None \<Rightarrow> False | Some i \<Rightarrow> i \<noteq> [] \<and> i \<notin> sent_item_ids s)"

definition first_attempts :: "send_event list \<Rightarrow> entry list" where
  "first_attempts evs = map ev_entry (filter (\<lambda>ev. \<not> ev_short ev) evs)"

text \<open>
  The cycle goes past its two early returns when a chat is configured, or confirmed by
  \<open>/start\<close> and stored; \<open>chat_of\<close> is then the chat it sends to.
\<close>

definition chat_known :: "bot_env \<Rightarrow> bool" where
  "chat_known env \<longleftrightarrow> truthy (TARGET_CHAT_ID env) \<or> (chat_id_confirmed env \<and> truthy (user_chat_id env))"

definition chat_of :: "bot_env \<Rightarrow> string" where
  "chat_of env = dict_get (if truthy (TARGET_CHAT_ID env) then TARGET_CHAT_ID env else user_chat_id env) []"

text \<open>
  The log records a cycle added, and what it means that a failure was logged: some new
  record of level \<open>ERROR\<close> ends with the text of the exception. Only an \<open>Exception\<close> is
  ever logged; the handlers do not see anything else. \<open>log_step\<close> says that the log and the
  calls only grew and that every call among the new calls that failed with an \<open>Exception\<close>
  was logged so.
\<close>

definition new_log :: "bot_state \<Rightarrow> bot_state \<Rightarrow> (level \<times> string) list" where
  "new_log s s' = drop (length (logged s)) (logged s')"

definition error_logged :: "string \<Rightarrow> (level \<times> string) list \<Rightarrow> bool" where
  "error_logged x ls \<longleftrightarrow> (\<exists>r \<in> set ls. fst r = ERROR \<and> suffix x (snd r))"

definition failure_logged :: "send_event \<Rightarrow> (level \<times> string) list \<Rightarrow> bool" where
  "failure_logged ev ls \<longleftrightarrow>
     (case ev_result ev of
        Delivered \<Rightarrow> True
      | Raised x \<Rightarrow> is_exception x \<longrightarrow> error_logged (str_of x) ls)"

definition log_step :: "bot_state \<Rightarrow> bot_state \<Rightarrow> bool" where
  "log_step s s' \<longleftrightarrow>
     logged s' = logged s @ new_log s s' \<and>
     sends s' = sends s @ new_sends s s' \<and>
     (\<forall>ev \<in> set (new_sends s s'). failure_logged ev (new_log s s'))"

text \<open>
  The endpoint and the pause raise nothing but instances of \<open>Exception\<close>: no awaited call
  is cancelled or interrupted.
\<close>

definition only_exceptions :: "transport \<Rightarrow> pause \<Rightarrow> bool" where
  "only_exceptions api sleep \<longleftrightarrow>
     (\<forall>k chat text x. api k chat text = Raised x \<longrightarrow> is_exception x) \<and>
     (\<forall>k x. sleep k = Some x \<longrightarrow> is_exception x)"

section \<open>Example inputs\<close>

text \<open>
  Concrete entries, feeds, environments and states on which the theorems below are
  exercised: an entry with id, link, title and summary; an environment with a configured
  chat; a well-formed feed; a state whose file holds one line per id of its set.
\<close>

definition demo_entry :: "string \<Rightarrow> string \<Rightarrow> entry" where
  "demo_entry i t =
     \<lparr>entry_id = Some i, entry_link = Some (''http://example.org/'' @ i),
      entry_title = Some t, entry_summary = Some ''text'', entry_description = None\<rparr>"

definition demo_env :: "transport \<Rightarrow> bot_env" where
  "demo_env api =
     \<lparr>TARGET_CHAT_ID = Some ''42'', chat_id_confirmed = True, user_chat_id = None, bot = api,
      asyncio_sleep = (\<lambda>k. None)\<rparr>"

definition demo_feed :: "entry list \<Rightarrow> fetch_result" where
  "demo_feed es = Parsed \<lparr>feed_bozo = False, feed_bozo_exception = [], feed_entries = es\<rparr>"

definition demo_state :: "string list \<Rightarrow> bot_state" where
  "demo_state ids =
     \<lparr>sent_item_ids = set ids, sent_items_file = Some (id_lines ids), logged = [], sends = []\<rparr>"

text \<open>
  An endpoint that rejects every message as too long, one that always times out, and one
  whose awaited call is cancelled (\<open>asyncio.CancelledError\<close>, whose text is empty).
\<close>

definition too_long_api :: transport where
  "too_long_api k chat text = Raised (Exception ''Message is too long'')"

definition timeout_api :: transport where
  "timeout_api k chat text = Raised (Exception ''Timed out'')"

definition cancelled_api :: transport where
  "cancelled_api k chat text = Raised (BaseException [])"

text \<open>An entry with no \<open>id\<close> key and an empty link, one with an empty id and a link, one
  with an id and a title but no link, and one with an id and a link but no title.\<close>

definition no_identity_entry :: entry where
  "no_identity_entry =
     \<lparr>entry_id = None, entry_link = Some [], entry_title = Some ''T'',
      entry_summary = Some ''text'', entry_description = None\<rparr>"

definition empty_id_entry :: entry where
  "empty_id_entry =
     \<lparr>entry_id = Some [], entry_link = Some ''http://example.org/x'', entry_title = Some ''T'',
      entry_summary = Some ''text'', entry_description = None\<rparr>"

definition no_link_entry :: entry where
  "no_link_entry =
     \<lparr>entry_id = Some ''n'', entry_link = None, entry_title = Some ''T'',
      entry_summary = Some ''text'', entry_description = None\<rparr>"

definition untitled_entry :: entry where
  "untitled_entry =
     \<lparr>entry_id = Some ''old'', entry_link = Some ''http://example.org/old'', entry_title = None,
      entry_summary = Some ''text'', entry_description = None\<rparr>"

section \<open>Basic facts\<close>

lemmas run_defs =
  poll_def cycle_sends_def new_sends_def check_rss_feed_def try_block_def process_entry_def
  send_item_def on_send_error_def send_message_def save_sent_item_def logger_def file_text_def item_id_of_def
  dict_get_def truthy_def Let_def

lemmas demo_defs =
  demo_entry_def demo_env_def demo_feed_def demo_state_def too_long_api_def timeout_api_def
  cancelled_api_def no_identity_entry_def empty_id_entry_def no_link_entry_def untitled_entry_def

lemmas char_defs = lower_def lower_char_def char_of_def bit_Suc_0_iff

lemma new_sends_same [simp]: "new_sends s s = []"
  by (simp add: new_sends_def)

lemma delivered_ids_simps [simp]:
  "delivered_ids [] = []"
  "delivered_ids (evs @ evs') = delivered_ids evs @ delivered_ids evs'"
  "delivered_ids (ev # evs) =
     (if ev_result ev = Delivered then ev_item_id ev # delivered_ids evs else delivered_ids evs)"
  by (simp_all add: delivered_ids_def)

lemma id_lines_simps [simp]:
  "id_lines [] = []"
  "id_lines (i # ids) = i @ NL # id_lines ids"
  "id_lines (ids @ ids') = id_lines ids @ id_lines ids'"
  by (simp_all add: id_lines_def)

lemma logger_fields [simp]:
  "sends (logger l m s) = sends s"
  "sent_item_ids (logger l m s) = sent_item_ids s"
  "sent_items_file (logger l m s) = sent_items_file s"
  "file_text (logger l m s) = file_text s"
  "logged (logger l m s) = logged s @ [(l, m)]"
  by (simp_all add: logger_def file_text_def)

lemma save_fields [simp]:
  "sends (save_sent_item i s) = sends s"
  "sent_item_ids (save_sent_item i s) = insert i (sent_item_ids s)"
  "file_text (save_sent_item i s) = file_text s @ i @ [NL]"
  "logged (save_sent_item i s) = logged s"
  by (simp_all add: save_sent_item_def file_text_def)

subsection \<open>Steps of a cycle compose\<close>

lemma cycle_step_refl: "cycle_step s s"
  by (simp add: cycle_step_def)

lemma cycle_stepI:
  assumes "sends s' = sends s @ evs"
    and "\<And>ev. ev \<in> set evs \<Longrightarrow> ev_item_id ev \<notin> sent_item_ids s \<and> ev_item_id ev \<noteq> [] \<and>
        item_id_of (ev_entry ev) = Some (ev_item_id ev)"
    and "sent_item_ids s' = sent_item_ids s \<union> set (delivered_ids evs)"
    and "file_text s' = file_text s @ id_lines (delivered_ids evs)"
    and "delivered_ids evs = [] \<Longrightarrow> sent_items_file s' = sent_items_file s"
  shows "cycle_step s s'"
proof -
  have "new_sends s s' = evs" using assms(1) by (simp add: new_sends_def)
  then show ?thesis using assms by (simp add: cycle_step_def)
qed

lemma cycle_step_trans:
  assumes a: "cycle_step s s1" and b: "cycle_step s1 s2"
  shows "cycle_step s s2"
proof (rule cycle_stepI [where evs = "new_sends s s1 @ new_sends s1 s2"])
  show "sends s2 = sends s @ new_sends s s1 @ new_sends s1 s2"
    using a b by (simp add: cycle_step_def)
next
  fix ev assume "ev \<in> set (new_sends s s1 @ new_sends s1 s2)"
  then show "ev_item_id ev \<notin> sent_item_ids s \<and> ev_item_id ev \<noteq> [] \<and>
        item_id_of (ev_entry ev) = Some (ev_item_id ev)"
    using a b unfolding cycle_step_def by auto
next
  show "sent_item_ids s2 = sent_item_ids s \<union> set (delivered_ids (new_sends s s1 @ new_sends s1 s2))"
    using a b unfolding cycle_step_def by auto
next
  show "file_text s2 = file_text s @ id_lines (delivered_ids (new_sends s s1 @ new_sends s1 s2))"
    using a b unfolding cycle_step_def by simp
next
  assume "delivered_ids (new_sends s s1 @ new_sends s1 s2) = []"
  then show "sent_items_file s2 = sent_items_file s"
    using a b unfolding cycle_step_def by simp
qed

lemma cycle_step_logger: "cycle_step s (logger l m s)"
  by (rule cycle_stepI [where evs = "[]"]) simp_all

subsection \<open>The steps taken for one entry\<close>

lemma send_message_fields:
  "fst (send_message api chat text e i b s) = api (length (sends s)) chat text"
  "sends (snd (send_message api chat text e i b s)) =
     sends s @ [\<lparr>ev_chat = chat, ev_text = text, ev_result = api (length (sends s)) chat text,
                 ev_entry = e, ev_item_id = i, ev_short = b\<rparr>]"
  "sent_item_ids (snd (send_message api chat text e i b s)) = sent_item_ids s"
  "sent_items_file (snd (send_message api chat text e i b s)) = sent_items_file s"
  "file_text (snd (send_message api chat text e i b s)) = file_text s"
  "logged (snd (send_message api chat text e i b s)) = logged s"
  by (simp_all add: send_message_def Let_def file_text_def)

lemma new_sends_append:
  assumes "sends s1 = sends s @ evs" "sends s2 = sends s1 @ evs'"
  shows "new_sends s s2 = evs @ evs'"
  using assms by (simp add: new_sends_def)

lemma item_stepI:
  assumes "sends s' = sends s @ evs"
    and "\<And>ev. ev \<in> set evs \<Longrightarrow> ev_item_id ev = i \<and> ev_entry ev = e"
    and "sent_item_ids s' = sent_item_ids s \<union> set (delivered_ids evs)"
    and "file_text s' = file_text s @ id_lines (delivered_ids evs)"
    and "delivered_ids evs = [] \<Longrightarrow> sent_items_file s' = sent_items_file s"
  shows "item_step i e s s'"
proof -
  have "new_sends s s' = evs" using assms(1) by (simp add: new_sends_def)
  then show ?thesis using assms by (simp add: item_step_def)
qed

lemma item_step_trans:
  assumes a: "item_step i e s s1" and b: "item_step i e s1 s2"
  shows "item_step i e s s2"
proof (rule item_stepI [where evs = "new_sends s s1 @ new_sends s1 s2"])
  show "sends s2 = sends s @ new_sends s s1 @ new_sends s1 s2"
    using a b by (simp add: item_step_def)
next
  fix ev assume "ev \<in> set (new_sends s s1 @ new_sends s1 s2)"
  then show "ev_item_id ev = i \<and> ev_entry ev = e"
    using a b unfolding item_step_def by auto
next
  show "sent_item_ids s2 = sent_item_ids s \<union> set (delivered_ids (new_sends s s1 @ new_sends s1 s2))"
    using a b unfolding item_step_def by auto
next
  show "file_text s2 = file_text s @ id_lines (delivered_ids (new_sends s s1 @ new_sends s1 s2))"
    using a b unfolding item_step_def by simp
next
  assume "delivered_ids (new_sends s s1 @ new_sends s1 s2) = []"
  then show "sent_items_file s2 = sent_items_file s"
    using a b unfolding item_step_def by simp
qed

lemma item_step_cycle_step:
  assumes "item_step i e s s'" "i \<notin> sent_item_ids s" "i \<noteq> []" "item_id_of e = Some i"
  shows "cycle_step s s'"
  using assms unfolding item_step_def cycle_step_def by auto

text \<open>
  The five ways through lines 76 to 125: the send returns and the pause returns, raises
  an \<open>Exception\<close> or raises something else; the send raises an \<open>Exception\<close> or something
  else.
\<close>

lemma send_item_cases:
  assumes "title = dict_get (entry_title e) ''No Title''"
    and "link = dict_get (entry_link e) []"
    and "msg = full_message title link (dict_get (entry_summary e) (dict_get (entry_description e) []))"
    and "s1 = snd (send_message api chat msg e i False s)"
    and "s2 = save_sent_item i s1"
  shows "(api (length (sends s)) chat msg = Delivered \<and>
          (sleep (length (sends s2)) = None \<and> send_item api sleep chat e i n s = (Inr (n + 1), s2) \<or>
           (\<exists>x. sleep (length (sends s2)) = Some x \<and> is_exception x \<and>
                send_item api sleep chat e i n s = on_send_error api chat e i title link x (n + 1) s2) \<or>
           (\<exists>x. sleep (length (sends s2)) = Some x \<and> \<not> is_exception x \<and>
                send_item api sleep chat e i n s = (Inl x, s2)))) \<or>
         (\<exists>x. api (length (sends s)) chat msg = Raised x \<and> is_exception x \<and>
              send_item api sleep chat e i n s = on_send_error api chat e i title link x n s1) \<or>
         (\<exists>x. api (length (sends s)) chat msg = Raised x \<and> \<not> is_exception x \<and>
              send_item api sleep chat e i n s = (Inl x, s1))"
  unfolding assms
  by (cases "api (length (sends s)) chat
               (full_message (dict_get (entry_title e) ''No Title'') (dict_get (entry_link e) [])
                  (dict_get (entry_summary e) (dict_get (entry_description e) [])))")
     (auto simp: send_item_def send_message_def Let_def split: option.splits)

lemma on_send_error_item_step:
  "item_step i e s (snd (on_send_error api chat e i title link x n s))"
  by (auto simp: item_step_def new_sends_def on_send_error_def send_message_def
        Let_def file_text_def logger_def save_sent_item_def
      split: send_result.splits)

lemma send_returned_item_step:
  assumes "api (length (sends s)) chat text = Delivered"
  shows "item_step i e s (save_sent_item i (snd (send_message api chat text e i b s)))"
  using assms
  by (intro item_stepI [where evs = "[\<lparr>ev_chat = chat, ev_text = text, ev_result = Delivered,
        ev_entry = e, ev_item_id = i, ev_short = b\<rparr>]"])
     (simp_all add: send_message_fields)

lemma send_raised_item_step:
  assumes "api (length (sends s)) chat text = Raised x"
  shows "item_step i e s (snd (send_message api chat text e i b s))"
  using assms
  by (intro item_stepI [where evs = "[\<lparr>ev_chat = chat, ev_text = text, ev_result = Raised x,
        ev_entry = e, ev_item_id = i, ev_short = b\<rparr>]"])
     (simp_all add: send_message_fields)

lemma send_item_item_step: "item_step i e s (snd (send_item api sleep chat e i n s))"
proof -
  define title where "title = dict_get (entry_title e) ''No Title''"
  define link where "link = dict_get (entry_link e) []"
  define msg where
    "msg = full_message title link (dict_get (entry_summary e) (dict_get (entry_description e) []))"
  define s1 where "s1 = snd (send_message api chat msg e i False s)"
  define s2 where "s2 = save_sent_item i s1"
  note cases = send_item_cases [OF title_def link_def msg_def s1_def s2_def, where sleep = sleep and n = n]
  have ok: "item_step i e s s2" if "api (length (sends s)) chat msg = Delivered"
    unfolding s2_def s1_def using that by (rule send_returned_item_step)
  have failed: "item_step i e s s1" if "api (length (sends s)) chat msg = Raised x" for x
    unfolding s1_def using that by (rule send_raised_item_step)
  have again: "item_step i e s (snd (on_send_error api chat e i title link x m s'))"
    if "item_step i e s s'" for x m s'
    using that on_send_error_item_step by (rule item_step_trans)
  from cases show ?thesis
    using ok failed again by (elim disjE conjE exE) simp_all
qed

lemma send_item_step:
  assumes run: "send_item api sleep chat e i n s = (r, s')"
    and new: "i \<notin> sent_item_ids s" "i \<noteq> []" "item_id_of e = Some i"
  shows "cycle_step s s'"
proof -
  have "item_step i e s s'" using send_item_item_step [of i e s api sleep chat n] run by simp
  then show ?thesis using new by (rule item_step_cycle_step)
qed

subsection \<open>Every part of a cycle is such a step\<close>

lemma process_entry_step:
  assumes run: "process_entry api sleep chat e n s = (r, s')"
  shows "cycle_step s s'"
proof (cases "item_id_of e")
  case None
  then show ?thesis using run by (auto simp: process_entry_def cycle_step_logger)
next
  case (Some i)
  show ?thesis
  proof (cases "i = [] \<or> i \<in> sent_item_ids s \<or> entry_title e = None")
    case True
    then show ?thesis using run Some
      by (auto simp: process_entry_def cycle_step_logger cycle_step_refl split: if_splits)
  next
    case False
    then obtain t where t: "entry_title e = Some t" by auto
    let ?s1 = "logger INFO (''New item found: '' @ t) s"
    have "send_item api sleep chat e i n ?s1 = (r, s')"
      using run Some False t by (simp add: process_entry_def)
    then have "cycle_step ?s1 s'"
      using False Some by (intro send_item_step) simp_all
    with cycle_step_logger show ?thesis by (rule cycle_step_trans)
  qed
qed

lemma process_entries_step:
  assumes "process_entries api sleep chat es n s = (r, s')"
  shows "cycle_step s s'"
  using assms
proof (induction es arbitrary: n s)
  case Nil
  then show ?case by (simp add: cycle_step_refl)
next
  case (Cons e es)
  obtain r1 s1 where p: "process_entry api sleep chat e n s = (r1, s1)"
    by (cases "process_entry api sleep chat e n s")
  have a: "cycle_step s s1" using p by (rule process_entry_step)
  show ?case
  proof (cases r1)
    case (Inl x)
    then show ?thesis using Cons.prems p a by simp
  next
    case (Inr m)
    then have "process_entries api sleep chat es m s1 = (r, s')" using Cons.prems p by simp
    then have "cycle_step s1 s'" by (rule Cons.IH)
    with a show ?thesis by (rule cycle_step_trans)
  qed
qed

lemma try_block_step:
  assumes run: "try_block api sleep chat fetched s = (r, s')"
  shows "cycle_step s s'"
proof (cases fetched)
  case (ParseRaised x)
  then show ?thesis using run by (auto simp: try_block_def cycle_step_refl)
next
  case (Parsed f)
  show ?thesis
  proof (cases "feed_bozo f")
    case True
    then show ?thesis using run Parsed by (auto simp: try_block_def cycle_step_logger)
  next
    case False
    obtain r1 s1 where p: "process_entries api sleep chat (rev (feed_entries f)) 0 s = (r1, s1)"
      by (cases "process_entries api sleep chat (rev (feed_entries f)) 0 s")
    have a: "cycle_step s s1" using p by (rule process_entries_step)
    show ?thesis
    proof (cases r1)
      case (Inl x)
      then show ?thesis using run Parsed False p a by (simp add: try_block_def)
    next
      case (Inr m)
      then have "\<exists>l msg. s' = logger l msg s1"
        using run Parsed False p by (auto simp: try_block_def split: if_splits)
      then obtain l msg where "s' = logger l msg s1" by blast
      then have "cycle_step s1 s'" by (simp add: cycle_step_logger)
      with a show ?thesis by (rule cycle_step_trans)
    qed
  qed
qed

lemma check_rss_feed_step:
  assumes run: "check_rss_feed env fetched s = (r, s')"
  shows "cycle_step s s'"
proof (cases "\<not> chat_id_confirmed env \<and> \<not> truthy (TARGET_CHAT_ID env)")
  case True
  then show ?thesis using run by (auto simp: check_rss_feed_def cycle_step_logger)
next
  case nearly: False
  let ?c = "if truthy (TARGET_CHAT_ID env) then TARGET_CHAT_ID env else user_chat_id env"
  show ?thesis
  proof (cases "truthy ?c")
    case False
    then show ?thesis using run nearly
      by (auto simp: check_rss_feed_def Let_def cycle_step_logger split: if_splits)
  next
    case True
    let ?s0 = "logger INFO (''Checking RSS feed: '' @ RSS_FEED_URL) s"
    obtain r1 s1 where p: "try_block (bot env) (asyncio_sleep env) (dict_get ?c []) fetched ?s0 = (r1, s1)"
      by (cases "try_block (bot env) (asyncio_sleep env) (dict_get ?c []) fetched ?s0")
    have a: "cycle_step s s1"
      using cycle_step_logger try_block_step [OF p] by (rule cycle_step_trans)
    have "s' = s1 \<or> (\<exists>l msg. s' = logger l msg s1)"
      using run nearly True p by (cases r1) (auto simp: check_rss_feed_def Let_def split: if_splits)
    then have "cycle_step s1 s'" by (auto simp: cycle_step_logger cycle_step_refl)
    with a show ?thesis by (rule cycle_step_trans)
  qed
qed

lemma poll_step: "cycle_step s (poll env fetched s)"
  unfolding poll_def by (rule check_rss_feed_step [OF prod.collapse [symmetric]])

subsection \<open>Messages\<close>

lemma replace_char_absent: "c \<notin> set s \<Longrightarrow> replace_char c r s = s"
  by (induction s) (auto simp: replace_char_def)

lemma html_escape_plain:
  assumes "CHR ''&'' \<notin> set s" "CHR ''<'' \<notin> set s" "CHR ''>'' \<notin> set s" "DQ \<notin> set s" "SQ \<notin> set s"
  shows "html_escape s = s"
  using assms by (simp add: html_escape_def replace_char_absent)

lemma length_short_message:
  "length (short_message title link) = 33 + length (html_escape title) + length (html_escape link)"
  by (simp add: short_message_def)

text \<open>
  Where the truncation does keep the full message within the limit: when the budget is
  not negative and escaping makes the link at most 21 characters longer.
\<close>

lemma full_message_within_limit:
  assumes "0 \<le> max_desc_len (''<b>'' @ html_escape title @ ''</b>'' @ [NL, NL]) link"
    and "length (html_escape link) \<le> length link + 21"
  shows "length (full_message title link description) \<le> MAX_MESSAGE_LENGTH"
  using assms
  by (auto simp: full_message_def Let_def max_desc_len_def slice_to_def MAX_MESSAGE_LENGTH_def
           min_def)

subsection \<open>A new entry, and a send rejected as too long\<close>

lemma new_sends_logger [simp]: "new_sends (logger l m s) s' = new_sends s s'"
  by (simp add: new_sends_def)

lemma process_entry_new:
  assumes "item_id_of e = Some i" "i \<noteq> []" "i \<notin> sent_item_ids s" "entry_title e = Some t"
  shows "process_entry api sleep chat e n s =
           send_item api sleep chat e i n (logger INFO (''New item found: '' @ t) s)"
  using assms by (simp add: process_entry_def)

lemma send_item_oversize:
  assumes "api (length (sends s)) chat
             (full_message (dict_get (entry_title e) ''No Title'') (dict_get (entry_link e) [])
                (dict_get (entry_summary e) (dict_get (entry_description e) []))) = Raised x"
    and "is_exception x"
    and "str_contains ''message is too long'' (lower (str_of x))"
  shows "map (\<lambda>ev. (ev_entry ev, ev_short ev, ev_text ev))
           (new_sends s (snd (send_item api sleep chat e i n s))) =
         [(e, False, full_message (dict_get (entry_title e) ''No Title'') (dict_get (entry_link e) [])
                (dict_get (entry_summary e) (dict_get (entry_description e) []))),
          (e, True, short_message (dict_get (entry_title e) ''No Title'') (dict_get (entry_link e) []))]"
  using assms
  by (simp add: send_item_def on_send_error_def send_message_def Let_def new_sends_def logger_def
           save_sent_item_def
           split: send_result.splits)

lemma process_entry_oversize:
  assumes "item_id_of e = Some i" "i \<noteq> []" "i \<notin> sent_item_ids s" "entry_title e = Some title"
    and "link = dict_get (entry_link e) []"
    and "description = dict_get (entry_summary e) (dict_get (entry_description e) [])"
    and "api (length (sends s)) chat (full_message title link description) = Raised x"
    and "is_exception x"
    and "str_contains ''message is too long'' (lower (str_of x))"
  shows "map (\<lambda>ev. (ev_entry ev, ev_short ev, ev_text ev))
           (new_sends s (snd (process_entry api sleep chat e n s))) =
           [(e, False, full_message title link description), (e, True, short_message title link)]"
proof -
  let ?s1 = "logger INFO (''New item found: '' @ title) s"
  have p: "process_entry api sleep chat e n s = send_item api sleep chat e i n ?s1"
    using assms(1-4) by (rule process_entry_new)
  have "map (\<lambda>ev. (ev_entry ev, ev_short ev, ev_text ev))
          (new_sends ?s1 (snd (send_item api sleep chat e i n ?s1))) =
        [(e, False, full_message title link description), (e, True, short_message title link)]"
    using send_item_oversize [of api ?s1 chat e x sleep i n] assms by (simp add: dict_get_def)
  then show ?thesis using p by simp
qed

subsection \<open>The order of the attempts\<close>

lemma first_attempts_simps [simp]:
  "first_attempts [] = []"
  "first_attempts (evs @ evs') = first_attempts evs @ first_attempts evs'"
  by (simp_all add: first_attempts_def)

lemma new_sends_logger2 [simp]: "new_sends s (logger l m s') = new_sends s s'"
  by (simp add: new_sends_def)

lemma candidate_logger [simp]: "candidate (logger l m s) = candidate s"
  by (rule ext) (simp add: candidate_def split: option.splits)

lemma drop_prefix: "xs = ys @ zs \<Longrightarrow> drop (length ys) xs = zs"
  by simp

lemma new_sends_trans:
  assumes "cycle_step s s1" "cycle_step s1 s2"
  shows "new_sends s s2 = new_sends s s1 @ new_sends s1 s2"
proof -
  have "sends s2 = sends s @ (new_sends s s1 @ new_sends s1 s2)"
    using assms by (simp add: cycle_step_def)
  then show ?thesis unfolding new_sends_def [of s s2] by (rule drop_prefix)
qed

lemma on_send_error_attempts:
  "first_attempts (new_sends s (snd (on_send_error api chat e i title link x n s))) = [] \<and>
   (\<forall>y. fst (on_send_error api chat e i title link x n s) = Inl y \<longrightarrow> \<not> is_exception y) \<and>
   (only_exceptions api sleep \<longrightarrow> (\<exists>m. fst (on_send_error api chat e i title link x n s) = Inr m)) \<and>
   sent_item_ids (snd (on_send_error api chat e i title link x n s)) \<subseteq> insert i (sent_item_ids s)"
  by (auto simp: new_sends_def first_attempts_def on_send_error_def send_message_def
        only_exceptions_def Let_def logger_def save_sent_item_def
      split: send_result.splits)

lemma on_send_error_after:
  assumes "sends s' = sends s @ evs"
  shows "first_attempts (new_sends s (snd (on_send_error api chat e i title link x n s'))) =
           first_attempts evs"
proof -
  let ?s'' = "snd (on_send_error api chat e i title link x n s')"
  have "sends ?s'' = sends s' @ new_sends s' ?s''"
    using on_send_error_item_step [of i e s' api chat title link x n] by (simp add: item_step_def)
  with assms have "new_sends s ?s'' = evs @ new_sends s' ?s''" by (rule new_sends_append)
  then show ?thesis using on_send_error_attempts [of s' api chat e i title link x n] by simp
qed

text \<open>
  The steps for one new entry make one call with the full message, first. They end with
  an exception only when the endpoint or the pause raises one that is not an
  \<open>Exception\<close>, and add at most the id of the entry to the set.
\<close>

lemma send_item_attempts:
  "first_attempts (new_sends s (snd (send_item api sleep chat e i n s))) = [e] \<and>
   (\<forall>y. fst (send_item api sleep chat e i n s) = Inl y \<longrightarrow> \<not> is_exception y) \<and>
   (only_exceptions api sleep \<longrightarrow> (\<exists>m. fst (send_item api sleep chat e i n s) = Inr m)) \<and>
   sent_item_ids (snd (send_item api sleep chat e i n s)) \<subseteq> insert i (sent_item_ids s)"
proof -
  define title where "title = dict_get (entry_title e) ''No Title''"
  define link where "link = dict_get (entry_link e) []"
  define msg where
    "msg = full_message title link (dict_get (entry_summary e) (dict_get (entry_description e) []))"
  define s1 where "s1 = snd (send_message api chat msg e i False s)"
  define s2 where "s2 = save_sent_item i s1"
  define ev where "ev = \<lparr>ev_chat = chat, ev_text = msg,
    ev_result = api (length (sends s)) chat msg, ev_entry = e, ev_item_id = i, ev_short = False\<rparr>"
  note cases = send_item_cases [OF title_def link_def msg_def s1_def s2_def, where sleep = sleep and n = n]
  have sends1: "sends s1 = sends s @ [ev]" and sends2: "sends s2 = sends s @ [ev]"
    by (simp_all add: s1_def s2_def ev_def send_message_fields)
  have fa: "first_attempts [ev] = [e]" by (simp add: first_attempts_def ev_def)
  have a1: "first_attempts (new_sends s s1) = [e]" and a2: "first_attempts (new_sends s s2) = [e]"
    using fa by (simp_all add: new_sends_def sends1 sends2)
  have b1: "first_attempts (new_sends s (snd (on_send_error api chat e i title link x m s1))) = [e]"
    and b2: "first_attempts (new_sends s (snd (on_send_error api chat e i title link x m s2))) = [e]"
    for x m
    using on_send_error_after [OF sends1] on_send_error_after [OF sends2] fa by simp_all
  have ids1: "sent_item_ids s1 = sent_item_ids s" and ids2: "sent_item_ids s2 = insert i (sent_item_ids s)"
    by (simp_all add: s1_def s2_def send_message_fields)
  have c1: "sent_item_ids (snd (on_send_error api chat e i title link x m s1)) \<subseteq> insert i (sent_item_ids s)"
    and c2: "sent_item_ids (snd (on_send_error api chat e i title link x m s2)) \<subseteq> insert i (sent_item_ids s)"
    for x m
    using on_send_error_attempts [of s1 api chat e i title link x m]
      on_send_error_attempts [of s2 api chat e i title link x m] ids1 ids2 by auto
  have d: "\<forall>y. fst (on_send_error api chat e i title link x m s') = Inl y \<longrightarrow> \<not> is_exception y"
    for x m s'
    using on_send_error_attempts [of s' api chat e i title link x m] by blast
  have r: "only_exceptions api sleep \<longrightarrow> (\<exists>k. fst (on_send_error api chat e i title link x m s') = Inr k)"
    for x m s'
    using on_send_error_attempts [of s' api chat e i title link x m sleep] by blast
  have no_send: "\<not> only_exceptions api sleep"
    if "api (length (sends s)) chat msg = Raised x" "\<not> is_exception x" for x
    using that by (auto simp: only_exceptions_def)
  have no_pause: "\<not> only_exceptions api sleep"
    if "sleep (length (sends s2)) = Some x" "\<not> is_exception x" for x
    using that by (auto simp: only_exceptions_def)
  from cases show ?thesis
  proof (elim disjE conjE exE)
    assume "send_item api sleep chat e i n s = (Inr (n + 1), s2)"
    then show ?thesis using a2 ids2 by simp
  next
    fix x assume "send_item api sleep chat e i n s = on_send_error api chat e i title link x (n + 1) s2"
    then show ?thesis using b2 [of x "n + 1"] c2 [of x "n + 1"] d [of x "n + 1" s2] r [of x "n + 1" s2]
      by simp
  next
    fix x assume "sleep (length (sends s2)) = Some x" "\<not> is_exception x"
      "send_item api sleep chat e i n s = (Inl x, s2)"
    then show ?thesis using a2 ids2 no_pause by auto
  next
    fix x assume "send_item api sleep chat e i n s = on_send_error api chat e i title link x n s1"
    then show ?thesis using b1 [of x n] c1 [of x n] d [of x n s1] r [of x n s1] by simp
  next
    fix x assume "api (length (sends s)) chat msg = Raised x" "\<not> is_exception x"
      "send_item api sleep chat e i n s = (Inl x, s1)"
    then show ?thesis using a1 ids1 no_send by auto
  qed
qed

lemma process_entry_attempts:
  "first_attempts (new_sends s (snd (process_entry api sleep chat e n s))) =
     (if candidate s e \<and> entry_title e \<noteq> None then [e] else [])"
proof (cases "candidate s e \<and> entry_title e \<noteq> None")
  case True
  then obtain i t where "item_id_of e = Some i" "i \<noteq> []" "i \<notin> sent_item_ids s" "entry_title e = Some t"
    by (auto simp: candidate_def split: option.splits)
  then show ?thesis using True send_item_attempts [of "logger INFO (''New item found: '' @ t) s" api sleep chat e i n]
    by (simp add: process_entry_new)
next
  case False
  then show ?thesis
    by (auto simp: process_entry_def candidate_def split: option.splits)
qed

lemma process_entry_candidate_ok:
  assumes "candidate s e \<longrightarrow> entry_title e \<noteq> None" and "only_exceptions api sleep"
  shows "\<exists>m. fst (process_entry api sleep chat e n s) = Inr m"
proof (cases "candidate s e")
  case True
  then obtain i t where "item_id_of e = Some i" "i \<noteq> []" "i \<notin> sent_item_ids s" "entry_title e = Some t"
    using assms by (auto simp: candidate_def split: option.splits)
  then show ?thesis
    using send_item_attempts [of "logger INFO (''New item found: '' @ t) s" api sleep chat e i n]
      assms(2)
    by (simp add: process_entry_new)
next
  case False
  then show ?thesis
    by (auto simp: process_entry_def candidate_def split: option.splits)
qed

lemma process_entry_sent_subset:
  "sent_item_ids (snd (process_entry api sleep chat e n s)) \<subseteq>
     sent_item_ids s \<union> (if candidate s e then {i. item_id_of e = Some i} else {})"
proof (cases "candidate s e \<and> entry_title e \<noteq> None")
  case True
  then obtain i t where "item_id_of e = Some i" "i \<noteq> []" "i \<notin> sent_item_ids s" "entry_title e = Some t"
    by (auto simp: candidate_def split: option.splits)
  then show ?thesis using True send_item_attempts [of "logger INFO (''New item found: '' @ t) s" api sleep chat e i n]
    by (auto simp add: process_entry_new)
next
  case False
  then show ?thesis
    by (auto simp: process_entry_def candidate_def split: option.splits)
qed

lemma process_entries_subseq:
  "subseq (first_attempts (new_sends s (snd (process_entries api sleep chat es n s)))) es"
proof (induction es arbitrary: n s)
  case Nil
  then show ?case by simp
next
  case (Cons e es)
  obtain r1 s1 where p: "process_entry api sleep chat e n s = (r1, s1)"
    by (cases "process_entry api sleep chat e n s")
  have a: "first_attempts (new_sends s s1) = (if candidate s e \<and> entry_title e \<noteq> None then [e] else [])"
    using process_entry_attempts [of s api sleep chat e n] p by simp
  show ?case
  proof (cases r1)
    case (Inl x)
    then show ?thesis using p a by auto
  next
    case (Inr m)
    obtain r s' where q: "process_entries api sleep chat es m s1 = (r, s')"
      by (cases "process_entries api sleep chat es m s1")
    have "new_sends s s' = new_sends s s1 @ new_sends s1 s'"
      using process_entry_step [OF p] process_entries_step [OF q] by (rule new_sends_trans)
    moreover have "subseq (first_attempts (new_sends s1 s')) es"
      using Cons.IH [of s1 m] q by simp
    ultimately show ?thesis using p Inr q a
      by (auto intro: subseq_Cons')
  qed
qed

lemma process_entries_exact:
  assumes "\<forall>e \<in> set es. candidate s e \<longrightarrow> entry_title e \<noteq> None"
    and "distinct (map item_id_of (filter (candidate s) es))"
    and "only_exceptions api sleep"
  shows "first_attempts (new_sends s (snd (process_entries api sleep chat es n s))) = filter (candidate s) es"
  using assms
proof (induction es arbitrary: n s)
  case Nil
  then show ?case by simp
next
  case (Cons e es)
  obtain r1 s1 where p: "process_entry api sleep chat e n s = (r1, s1)"
    by (cases "process_entry api sleep chat e n s")
  have title: "candidate s e \<longrightarrow> entry_title e \<noteq> None" using Cons.prems(1) by simp
  obtain m where r1: "r1 = Inr m"
    using process_entry_candidate_ok [OF title Cons.prems(3), of chat n] p by auto
  have a: "first_attempts (new_sends s s1) = (if candidate s e then [e] else [])"
    using process_entry_attempts [of s api sleep chat e n] p title by auto
  have st: "cycle_step s s1" using p by (rule process_entry_step)
  have sub: "sent_item_ids s1 \<subseteq>
     sent_item_ids s \<union> (if candidate s e then {i. item_id_of e = Some i} else {})"
    using process_entry_sent_subset [of api sleep chat e n s] p by simp
  have grow: "sent_item_ids s \<subseteq> sent_item_ids s1"
    using st unfolding cycle_step_def by blast
  have same: "candidate s1 e' = candidate s e'" if e': "e' \<in> set es" for e'
  proof (cases "candidate s e'")
    case False
    then show ?thesis using grow by (auto simp: candidate_def split: option.splits)
  next
    case True
    then obtain i' where i': "item_id_of e' = Some i'" "i' \<noteq> []" "i' \<notin> sent_item_ids s"
      by (auto simp: candidate_def split: option.splits)
    have "i' \<notin> sent_item_ids s1"
    proof (cases "candidate s e")
      case False
      then show ?thesis using sub i' by auto
    next
      case c: True
      then have "item_id_of e \<notin> item_id_of ` set (filter (candidate s) es)"
        using Cons.prems(2) by simp
      then have "item_id_of e \<noteq> Some i'" using e' True i' by force
      then show ?thesis using sub i' c by auto
    qed
    then show ?thesis using True i' by (simp add: candidate_def)
  qed
  then have filt: "filter (candidate s1) es = filter (candidate s) es"
    by (intro filter_cong) auto
  obtain r s' where q: "process_entries api sleep chat es m s1 = (r, s')"
    by (cases "process_entries api sleep chat es m s1")
  have "first_attempts (new_sends s1 (snd (process_entries api sleep chat es m s1))) = filter (candidate s1) es"
  proof (rule Cons.IH)
    show "\<forall>e\<in>set es. candidate s1 e \<longrightarrow> entry_title e \<noteq> None"
      using Cons.prems(1) same by auto
    show "distinct (map item_id_of (filter (candidate s1) es))"
      using Cons.prems(2) filt by (auto split: if_splits)
    show "only_exceptions api sleep" by (rule Cons.prems(3))
  qed
  then have b: "first_attempts (new_sends s1 s') = filter (candidate s) es"
    using q filt by simp
  have "new_sends s s' = new_sends s s1 @ new_sends s1 s'"
    using st process_entries_step [OF q] by (rule new_sends_trans)
  then show ?case using p r1 q a b by simp
qed

lemma cycle_sends_entries:
  "cycle_sends env fetched s =
     (case fetched of
        ParseRaised x \<Rightarrow> []
      | Parsed f \<Rightarrow>
          if chat_known env \<and> \<not> feed_bozo f then
            new_sends s (snd (process_entries (bot env) (asyncio_sleep env) (chat_of env) (rev (feed_entries f)) 0
                                (logger INFO (''Checking RSS feed: '' @ RSS_FEED_URL) s)))
          else [])"
proof (cases "chat_known env")
  case False
  then show ?thesis
    by (auto simp: cycle_sends_def poll_def check_rss_feed_def chat_known_def Let_def
             split: fetch_result.splits)
next
  case True
  then have c: "\<not> (\<not> chat_id_confirmed env \<and> \<not> truthy (TARGET_CHAT_ID env))"
    "truthy (if truthy (TARGET_CHAT_ID env) then TARGET_CHAT_ID env else user_chat_id env)"
    by (auto simp: chat_known_def)
  show ?thesis
  proof (cases fetched)
    case (ParseRaised x)
    then show ?thesis using c
      by (simp add: cycle_sends_def poll_def check_rss_feed_def Let_def try_block_def)
  next
    case (Parsed f)
    let ?c = "if truthy (TARGET_CHAT_ID env) then TARGET_CHAT_ID env else user_chat_id env"
    let ?s0 = "logger INFO (''Checking RSS feed: '' @ RSS_FEED_URL) s"
    show ?thesis
    proof (cases "feed_bozo f")
      case bozo: True
      then show ?thesis using c Parsed
        by (simp add: cycle_sends_def poll_def check_rss_feed_def Let_def try_block_def)
    next
      case False
      obtain r1 s1 where p:
        "process_entries (bot env) (asyncio_sleep env) (dict_get ?c []) (rev (feed_entries f)) 0 ?s0 = (r1, s1)"
        by (cases "process_entries (bot env) (asyncio_sleep env) (dict_get ?c []) (rev (feed_entries f)) 0 ?s0")
      have "new_sends s (snd (check_rss_feed env fetched s)) = new_sends s s1"
        using c Parsed False p
        by (cases r1) (auto simp: check_rss_feed_def Let_def try_block_def)
      then show ?thesis using Parsed False True p
        by (simp add: cycle_sends_def poll_def chat_of_def)
    qed
  qed
qed

text \<open>
  Where the code does attempt the new entries in the reverse of the feed's order. The
  entries whose delivery a poll cycle attempts always form a subsequence of the reversed
  feed; and when a chat is known, the feed is well-formed, no awaited call raises anything
  but an \<open>Exception\<close>, every candidate has a title and no two candidates share an id, they
  are exactly the candidates of the reversed feed, in that order.
\<close>

lemma attempts_in_reverse_order:
  "subseq (first_attempts (cycle_sends env (Parsed f) s)) (rev (feed_entries f)) \<and>
   (chat_known env \<and> \<not> feed_bozo f \<and> only_exceptions (bot env) (asyncio_sleep env) \<and>
    (\<forall>e \<in> set (feed_entries f). candidate s e \<longrightarrow> entry_title e \<noteq> None) \<and>
    distinct (map item_id_of (filter (candidate s) (feed_entries f))) \<longrightarrow>
    first_attempts (cycle_sends env (Parsed f) s) = filter (candidate s) (rev (feed_entries f)))"
proof -
  let ?s0 = "logger INFO (''Checking RSS feed: '' @ RSS_FEED_URL) s"
  let ?run = "process_entries (bot env) (asyncio_sleep env) (chat_of env) (rev (feed_entries f)) 0 ?s0"
  have sends: "cycle_sends env (Parsed f) s =
      (if chat_known env \<and> \<not> feed_bozo f then new_sends s (snd ?run) else [])"
    by (simp add: cycle_sends_entries)
  have "subseq (first_attempts (new_sends ?s0 (snd ?run))) (rev (feed_entries f))"
    by (rule process_entries_subseq)
  then have a: "subseq (first_attempts (cycle_sends env (Parsed f) s)) (rev (feed_entries f))"
    using sends by simp
  have b: "first_attempts (cycle_sends env (Parsed f) s) = filter (candidate s) (rev (feed_entries f))"
    if ok: "chat_known env" "\<not> feed_bozo f"
      and only: "only_exceptions (bot env) (asyncio_sleep env)"
      and titles: "\<forall>e \<in> set (feed_entries f). candidate s e \<longrightarrow> entry_title e \<noteq> None"
      and dist: "distinct (map item_id_of (filter (candidate s) (feed_entries f)))"
  proof -
    have "distinct (rev (map item_id_of (filter (candidate s) (feed_entries f))))"
      using dist by (simp only: distinct_rev)
    then have d: "distinct (map item_id_of (filter (candidate ?s0) (rev (feed_entries f))))"
      by (simp add: rev_map rev_filter)
    have t: "\<forall>e \<in> set (rev (feed_entries f)). candidate ?s0 e \<longrightarrow> entry_title e \<noteq> None"
      using titles by simp
    have "first_attempts (new_sends ?s0 (snd ?run)) = filter (candidate ?s0) (rev (feed_entries f))"
      using t d only by (rule process_entries_exact)
    then show ?thesis using sends ok by simp
  qed
  from a b show ?thesis by blast
qed

subsection \<open>The footer\<close>

lemma not_footer_suffix: "\<not> suffix ''No link available.'' (short_message title link)"
proof
  assume "suffix ''No link available.'' (short_message title link)"
  then obtain ys where "short_message title link = ys @ ''No link available.''"
    by (auto simp: suffix_def)
  then have "last (short_message title link) = last (ys @ ''No link available.'')" by simp
  then show False by (simp add: short_message_def)
qed

lemma footer_suffix: "suffix ''No link available.'' (full_message title [] description)"
  by (simp add: full_message_def Let_def suffix_def)

subsection \<open>Reading the file back\<close>

lemma un_no_cr: "CR \<notin> set xs \<Longrightarrow> universal_newlines xs = xs"
  by (induction xs rule: universal_newlines.induct) auto

lemma un_Nil_iff [simp]: "universal_newlines xs = [] \<longleftrightarrow> xs = []"
  by (induction xs rule: universal_newlines.induct) auto

lemma un_append:
  "xs = [] \<or> last xs \<noteq> CR \<Longrightarrow>
   universal_newlines (xs @ ys) = universal_newlines xs @ universal_newlines ys"
proof (induction xs rule: universal_newlines.induct)
  case 1
  then show ?case by simp
next
  case (2 c)
  then show ?case by (cases ys) auto
next
  case (3 c d cs)
  then show ?case by (auto split: if_splits)
qed

lemma un_last_nl:
  "xs \<noteq> [] \<Longrightarrow> last xs = NL \<Longrightarrow> last (universal_newlines xs) = NL"
  by (induction xs rule: universal_newlines.induct) (auto split: if_splits)

lemma sl_Nil_iff [simp]: "split_lines xs = [] \<longleftrightarrow> xs = []"
  by (cases xs) (auto split: list.splits)

lemma sl_append:
  "xs = [] \<or> last xs = NL \<Longrightarrow> split_lines (xs @ ys) = split_lines xs @ split_lines ys"
proof (induction xs)
  case Nil
  then show ?case by simp
next
  case (Cons c cs)
  show ?case
  proof (cases "c = NL")
    case True
    then show ?thesis using Cons by (cases "cs = []") auto
  next
    case False
    then have cs: "cs \<noteq> []" "last cs = NL" using Cons.prems by (auto split: if_splits)
    then have "split_lines (cs @ ys) = split_lines cs @ split_lines ys" using Cons.IH by simp
    moreover have "split_lines cs \<noteq> []" using cs by simp
    ultimately show ?thesis using False by (auto split: list.splits)
  qed
qed

lemma sl_line: "NL \<notin> set xs \<Longrightarrow> split_lines (xs @ [NL]) = [xs @ [NL]]"
  by (induction xs) auto

lemma isspace_NL [simp]: "isspace NL"
  by (simp add: isspace_def)

lemma dropWhile_shorter:
  "xs \<noteq> [] \<Longrightarrow> P (hd xs) \<Longrightarrow> length (dropWhile P xs) < length xs"
  by (cases xs) (auto simp: less_Suc_eq_le length_dropWhile_le)

lemma strip_fixed:
  assumes "strip xs = xs" "xs \<noteq> []"
  shows "\<not> isspace (hd xs) \<and> \<not> isspace (last xs)"
proof -
  have len: "length (strip xs) = length (dropWhile isspace (rev (dropWhile isspace xs)))"
    by (simp add: strip_def)
  have a: "\<not> isspace (hd xs)"
  proof
    assume "isspace (hd xs)"
    then have "length (dropWhile isspace xs) < length xs"
      using assms(2) by (rule dropWhile_shorter [rotated])
    moreover have "length (strip xs) \<le> length (rev (dropWhile isspace xs))"
      unfolding len by (rule length_dropWhile_le)
    ultimately show False using assms(1) by simp
  qed
  then have d: "dropWhile isspace xs = xs" using assms(2) by (cases xs) auto
  have b: "\<not> isspace (last xs)"
  proof
    assume "isspace (last xs)"
    then have "isspace (hd (rev xs))" using assms(2) by (simp add: hd_rev)
    then have "length (dropWhile isspace (rev xs)) < length (rev xs)"
      using assms(2) by (intro dropWhile_shorter) auto
    then show False using assms(1) len d by simp
  qed
  from a b show ?thesis by simp
qed

lemma dropWhile_keep: "ys \<noteq> [] \<Longrightarrow> \<not> P (hd ys) \<Longrightarrow> dropWhile P ys = ys"
  by (cases ys) auto

lemma strip_line:
  assumes "xs \<noteq> []" "\<not> isspace (hd xs)" "\<not> isspace (last xs)"
  shows "strip (xs @ [NL]) = xs"
proof -
  have "dropWhile isspace (xs @ [NL]) = xs @ [NL]" using assms by (cases xs) auto
  moreover have "hd (rev xs) = last xs" using assms(1) by (simp add: hd_rev)
  then have "dropWhile isspace (rev xs) = rev xs"
    using assms by (intro dropWhile_keep) auto
  ultimately show ?thesis by (simp add: strip_def)
qed

lemma file_lines_saved:
  assumes "NL \<notin> set i" "CR \<notin> set i" "old = [] \<or> last old = NL"
  shows "file_lines (old @ i @ [NL]) = file_lines old @ [i @ [NL]]"
proof -
  have "universal_newlines (old @ (i @ [NL])) = universal_newlines old @ universal_newlines (i @ [NL])"
    using assms(3) by (intro un_append) auto
  also have "universal_newlines (i @ [NL]) = i @ [NL]" using assms(2) by (intro un_no_cr) simp
  finally have u: "universal_newlines (old @ i @ [NL]) = universal_newlines old @ i @ [NL]" by simp
  have "universal_newlines old = [] \<or> last (universal_newlines old) = NL"
    using assms(3) un_last_nl [of old] by auto
  then have "split_lines (universal_newlines old @ (i @ [NL])) =
             split_lines (universal_newlines old) @ split_lines (i @ [NL])"
    by (rule sl_append)
  then show ?thesis using u sl_line [OF assms(1)] by (simp add: file_lines_def)
qed

lemma file_lines_blank:
  assumes "a = [] \<or> last a = NL"
  shows "file_lines (a @ NL # b) = file_lines a @ [NL] # file_lines b"
proof -
  have "universal_newlines (a @ (NL # b)) = universal_newlines a @ universal_newlines (NL # b)"
    using assms by (intro un_append) auto
  moreover have "universal_newlines (NL # b) = NL # universal_newlines b" by (cases b) auto
  ultimately have u: "universal_newlines (a @ NL # b) = universal_newlines a @ NL # universal_newlines b"
    by simp
  have l: "universal_newlines a = [] \<or> last (universal_newlines a) = NL"
    using assms un_last_nl [of a] by auto
  then have "split_lines (universal_newlines a @ (NL # universal_newlines b)) =
             split_lines (universal_newlines a) @ split_lines (NL # universal_newlines b)"
    by (rule sl_append)
  then show ?thesis using u by (simp add: file_lines_def)
qed

lemma file_lines_append:
  assumes "a = [] \<or> last a = NL"
  shows "file_lines (a @ b) = file_lines a @ file_lines b"
proof -
  have "universal_newlines (a @ b) = universal_newlines a @ universal_newlines b"
    using assms by (intro un_append) auto
  moreover have "universal_newlines a = [] \<or> last (universal_newlines a) = NL"
    using assms un_last_nl [of a] by auto
  ultimately show ?thesis by (simp add: file_lines_def sl_append)
qed

lemma load_file:
  "sent_items_file s = Some content \<Longrightarrow> sent_item_ids (load_sent_items s) = loaded_ids content"
  by (simp add: load_sent_items_def loaded_ids_def Let_def)

lemma load_no_file:
  "sent_items_file s = None \<Longrightarrow> sent_item_ids (load_sent_items s) = sent_item_ids s"
  by (simp add: load_sent_items_def Let_def)

lemma strip_NL [simp]: "strip [NL] = []"
  by (simp add: strip_def)

lemmas file_defs =
  load_sent_items_def save_sent_item_def file_lines_def file_text_def strip_def isspace_def
  initial_state_def logger_def Let_def

subsection \<open>Failures are logged\<close>

lemma error_logged_append:
  "error_logged x ls \<or> error_logged x ls' \<Longrightarrow> error_logged x (ls @ ls')"
  by (auto simp: error_logged_def)

lemma failure_logged_append:
  "failure_logged ev ls \<or> failure_logged ev ls' \<Longrightarrow> failure_logged ev (ls @ ls')"
  by (auto simp: failure_logged_def error_logged_append split: send_result.splits)

lemma error_logged_last: "error_logged x (ls @ [(ERROR, m @ x)])"
  by (simp add: error_logged_def suffix_def)

lemma log_stepI:
  assumes "logged s' = logged s @ ls" "sends s' = sends s @ evs"
    and "\<And>ev. ev \<in> set evs \<Longrightarrow> failure_logged ev ls"
  shows "log_step s s'"
proof -
  have "new_log s s' = ls" using assms(1) by (simp add: new_log_def)
  moreover have "new_sends s s' = evs" using assms(2) by (simp add: new_sends_def)
  ultimately show ?thesis using assms by (simp add: log_step_def)
qed

lemma log_step_refl: "log_step s s"
  by (rule log_stepI [where ls = "[]" and evs = "[]"]) simp_all

lemma log_step_logger: "log_step s (logger l m s)"
  by (rule log_stepI [where ls = "[(l, m)]" and evs = "[]"]) simp_all

lemma log_step_trans:
  assumes a: "log_step s s1" and b: "log_step s1 s2"
  shows "log_step s s2"
proof (rule log_stepI [where ls = "new_log s s1 @ new_log s1 s2"
      and evs = "new_sends s s1 @ new_sends s1 s2"])
  show "logged s2 = logged s @ new_log s s1 @ new_log s1 s2"
    using a b by (simp add: log_step_def)
  show "sends s2 = sends s @ new_sends s s1 @ new_sends s1 s2"
    using a b by (simp add: log_step_def)
  fix ev assume "ev \<in> set (new_sends s s1 @ new_sends s1 s2)"
  then have "failure_logged ev (new_log s s1) \<or> failure_logged ev (new_log s1 s2)"
    using a b by (auto simp: log_step_def)
  then show "failure_logged ev (new_log s s1 @ new_log s1 s2)"
    by (rule failure_logged_append)
qed

lemma on_send_error_log_step:
  "log_step s (snd (on_send_error api chat e i title link x n s)) \<and>
   error_logged (str_of x) (new_log s (snd (on_send_error api chat e i title link x n s)))"
  by (auto simp: log_step_def new_sends_def new_log_def on_send_error_def send_message_def
        Let_def logger_def save_sent_item_def failure_logged_def error_logged_def suffix_def
      split: send_result.splits)

lemma send_returned_log_step:
  assumes "api (length (sends s)) chat text = Delivered"
  shows "log_step s (save_sent_item i (snd (send_message api chat text e i b s)))"
  using assms
  by (intro log_stepI [where ls = "[]" and evs = "[\<lparr>ev_chat = chat, ev_text = text,
        ev_result = Delivered, ev_entry = e, ev_item_id = i, ev_short = b\<rparr>]"])
     (simp_all add: send_message_fields failure_logged_def)

lemma send_interrupted_log_step:
  assumes "api (length (sends s)) chat text = Raised x" "\<not> is_exception x"
  shows "log_step s (snd (send_message api chat text e i b s))"
  using assms
  by (intro log_stepI [where ls = "[]" and evs = "[\<lparr>ev_chat = chat, ev_text = text,
        ev_result = Raised x, ev_entry = e, ev_item_id = i, ev_short = b\<rparr>]"])
     (simp_all add: send_message_fields failure_logged_def)

lemma send_raised_log_step:
  assumes r: "api (length (sends s)) chat text = Raised x"
    and l: "log_step (snd (send_message api chat text e i b s)) s'"
    and x: "error_logged (str_of x) (new_log (snd (send_message api chat text e i b s)) s')"
  shows "log_step s s'"
proof -
  let ?s1 = "snd (send_message api chat text e i b s)"
  let ?ev = "\<lparr>ev_chat = chat, ev_text = text, ev_result = Raised x, ev_entry = e,
              ev_item_id = i, ev_short = b\<rparr>"
  show ?thesis
  proof (rule log_stepI [where ls = "new_log ?s1 s'" and evs = "?ev # new_sends ?s1 s'"])
    show "logged s' = logged s @ new_log ?s1 s'"
      using l by (simp add: log_step_def send_message_fields)
    show "sends s' = sends s @ ?ev # new_sends ?s1 s'"
      using l r by (simp add: log_step_def send_message_fields)
    fix ev assume "ev \<in> set (?ev # new_sends ?s1 s')"
    then show "failure_logged ev (new_log ?s1 s')"
      using l x by (auto simp: log_step_def failure_logged_def)
  qed
qed

lemma send_item_log_step: "log_step s (snd (send_item api sleep chat e i n s))"
proof -
  define title where "title = dict_get (entry_title e) ''No Title''"
  define link where "link = dict_get (entry_link e) []"
  define msg where
    "msg = full_message title link (dict_get (entry_summary e) (dict_get (entry_description e) []))"
  define s1 where "s1 = snd (send_message api chat msg e i False s)"
  define s2 where "s2 = save_sent_item i s1"
  note cases = send_item_cases [OF title_def link_def msg_def s1_def s2_def, where sleep = sleep and n = n]
  have ok: "log_step s s2" if "api (length (sends s)) chat msg = Delivered"
    unfolding s2_def s1_def using that by (rule send_returned_log_step)
  have ok': "log_step s (snd (on_send_error api chat e i title link x m s2))"
    if "api (length (sends s)) chat msg = Delivered" for x m
    using ok [OF that] on_send_error_log_step [of s2 api chat e i title link x m]
      log_step_trans [of s s2 "snd (on_send_error api chat e i title link x m s2)"]
    by blast
  have interrupted: "log_step s s1"
    if "api (length (sends s)) chat msg = Raised x" "\<not> is_exception x" for x
    unfolding s1_def using that by (rule send_interrupted_log_step)
  have failed: "log_step s (snd (on_send_error api chat e i title link x m s1))"
    if "api (length (sends s)) chat msg = Raised x" for x m
  proof (rule send_raised_log_step [of api s chat msg x e i False, OF that])
    show "log_step (snd (send_message api chat msg e i False s))
            (snd (on_send_error api chat e i title link x m s1))"
      using on_send_error_log_step [of s1 api chat e i title link x m] by (simp add: s1_def)
    show "error_logged (str_of x)
            (new_log (snd (send_message api chat msg e i False s))
               (snd (on_send_error api chat e i title link x m s1)))"
      using on_send_error_log_step [of s1 api chat e i title link x m] by (simp add: s1_def)
  qed
  from cases show ?thesis
    using ok ok' interrupted failed by (elim disjE conjE exE) simp_all
qed

lemma process_entry_log_step: "log_step s (snd (process_entry api sleep chat e n s))"
proof (cases "candidate s e \<and> entry_title e \<noteq> None")
  case True
  then obtain i t where h: "item_id_of e = Some i" "i \<noteq> []" "i \<notin> sent_item_ids s" "entry_title e = Some t"
    by (auto simp: candidate_def split: option.splits)
  let ?s1 = "logger INFO (''New item found: '' @ t) s"
  have p: "process_entry api sleep chat e n s = send_item api sleep chat e i n ?s1"
    using h by (rule process_entry_new)
  show ?thesis
    unfolding p by (rule log_step_trans [OF log_step_logger send_item_log_step])
next
  case False
  then show ?thesis
    by (auto simp: process_entry_def candidate_def log_step_refl log_step_logger split: option.splits)
qed

lemma process_entries_log_step: "log_step s (snd (process_entries api sleep chat es n s))"
proof (induction es arbitrary: n s)
  case Nil
  then show ?case by (simp add: log_step_refl)
next
  case (Cons e es)
  obtain r1 s1 where p: "process_entry api sleep chat e n s = (r1, s1)"
    by (cases "process_entry api sleep chat e n s")
  have a: "log_step s s1" using process_entry_log_step [of s api sleep chat e n] p by simp
  show ?case
  proof (cases r1)
    case (Inl x)
    then show ?thesis using p a by simp
  next
    case (Inr m)
    have b: "log_step s1 (snd (process_entries api sleep chat es m s1))" by (rule Cons.IH)
    have "log_step s (snd (process_entries api sleep chat es m s1))"
      by (rule log_step_trans [OF a b])
    then show ?thesis using p Inr by simp
  qed
qed

lemma try_block_log_step: "log_step s (snd (try_block api sleep chat fetched s))"
proof (cases fetched)
  case (ParseRaised x)
  then show ?thesis by (simp add: try_block_def log_step_refl)
next
  case (Parsed f)
  show ?thesis
  proof (cases "feed_bozo f")
    case True
    then show ?thesis using Parsed by (simp add: try_block_def log_step_logger)
  next
    case False
    let ?run = "process_entries api sleep chat (rev (feed_entries f)) 0 s"
    have a: "log_step s (snd ?run)" by (rule process_entries_log_step)
    obtain r1 s1 where p: "?run = (r1, s1)" by (cases ?run)
    have "snd (try_block api sleep chat fetched s) = s1 \<or>
          (\<exists>l m. snd (try_block api sleep chat fetched s) = logger l m s1)"
      using Parsed False p by (cases r1) (auto simp: try_block_def)
    then show ?thesis
    proof
      assume "snd (try_block api sleep chat fetched s) = s1"
      then show ?thesis using a p by simp
    next
      assume "\<exists>l m. snd (try_block api sleep chat fetched s) = logger l m s1"
      then obtain l m where e: "snd (try_block api sleep chat fetched s) = logger l m s1" by blast
      have a1: "log_step s s1" using a p by simp
      show ?thesis unfolding e
        by (rule log_step_trans [OF a1 log_step_logger])
    qed
  qed
qed

lemma log_step_error_kept:
  assumes "log_step s s1"
  shows "error_logged x (new_log s (logger ERROR (m @ x) s1))"
proof -
  have "logged (logger ERROR (m @ x) s1) = logged s @ (new_log s s1 @ [(ERROR, m @ x)])"
    using assms by (simp add: log_step_def)
  then have "new_log s (logger ERROR (m @ x) s1) = new_log s s1 @ [(ERROR, m @ x)]"
    unfolding new_log_def [of s "logger ERROR (m @ x) s1"] by (rule drop_prefix)
  then show ?thesis by (simp add: error_logged_last)
qed

text \<open>
  Past the two early returns, the cycle is the \<open>try\<close> block started after the first log
  record, followed by the handler when an \<open>Exception\<close> left the block.
\<close>

lemma check_rss_feed_unfold:
  assumes "chat_known env"
  shows "check_rss_feed env fetched s =
      (case fst (try_block (bot env) (asyncio_sleep env) (chat_of env) fetched
                  (logger INFO (''Checking RSS feed: '' @ RSS_FEED_URL) s)) of
         Inl x \<Rightarrow>
           if is_exception x then
             (Inr (), logger ERROR (''An error occurred during RSS check: '' @ str_of x)
                   (snd (try_block (bot env) (asyncio_sleep env) (chat_of env) fetched
                          (logger INFO (''Checking RSS feed: '' @ RSS_FEED_URL) s))))
           else (Inl x, snd (try_block (bot env) (asyncio_sleep env) (chat_of env) fetched
                          (logger INFO (''Checking RSS feed: '' @ RSS_FEED_URL) s)))
       | Inr u \<Rightarrow> (Inr (), snd (try_block (bot env) (asyncio_sleep env) (chat_of env) fetched
                          (logger INFO (''Checking RSS feed: '' @ RSS_FEED_URL) s))))"
proof -
  have c: "\<not> (\<not> chat_id_confirmed env \<and> \<not> truthy (TARGET_CHAT_ID env))"
    "truthy (if truthy (TARGET_CHAT_ID env) then TARGET_CHAT_ID env else user_chat_id env)"
    using assms by (auto simp: chat_known_def)
  obtain r1 s1 where p: "try_block (bot env) (asyncio_sleep env) (chat_of env) fetched
                  (logger INFO (''Checking RSS feed: '' @ RSS_FEED_URL) s) = (r1, s1)"
    by (cases "try_block (bot env) (asyncio_sleep env) (chat_of env) fetched
                  (logger INFO (''Checking RSS feed: '' @ RSS_FEED_URL) s)")
  show ?thesis
    unfolding p using c p
    by (cases r1) (auto simp: check_rss_feed_def Let_def chat_of_def)
qed

lemma check_rss_feed_log:
  "log_step s (poll env fetched s) \<and>
   (chat_known env \<and>
    fst (try_block (bot env) (asyncio_sleep env) (chat_of env) fetched
           (logger INFO (''Checking RSS feed: '' @ RSS_FEED_URL) s)) = Inl x \<and> is_exception x \<longrightarrow>
      error_logged (str_of x) (new_log s (poll env fetched s))) \<and>
   (chat_known env \<and> fetched = Parsed f \<and> feed_bozo f \<longrightarrow>
      error_logged (feed_bozo_exception f) (new_log s (poll env fetched s)))"
proof (cases "chat_known env")
  case False
  then have "\<exists>l m. poll env fetched s = logger l m s"
    by (auto simp: poll_def check_rss_feed_def chat_known_def Let_def)
  then obtain l m where "poll env fetched s = logger l m s" by blast
  then show ?thesis using False by (simp add: log_step_logger)
next
  case True
  let ?s0 = "logger INFO (''Checking RSS feed: '' @ RSS_FEED_URL) s"
  let ?tb = "try_block (bot env) (asyncio_sleep env) (chat_of env) fetched ?s0"
  have t: "log_step ?s0 (snd ?tb)" by (rule try_block_log_step)
  have l: "log_step s (snd ?tb)"
    by (rule log_step_trans [OF log_step_logger t])
  note un = check_rss_feed_unfold [OF True, of fetched s]
  have caught: "poll env fetched s =
        logger ERROR (''An error occurred during RSS check: '' @ str_of y) (snd ?tb)"
    if "fst ?tb = Inl y" "is_exception y" for y
    unfolding poll_def un using that by (simp only: sum.case if_True snd_conv)
  have passed: "poll env fetched s = snd ?tb" if "fst ?tb = Inl y" "\<not> is_exception y" for y
    unfolding poll_def un using that by (simp only: sum.case if_False snd_conv)
  have returned: "poll env fetched s = snd ?tb" if "fst ?tb = Inr u" for u
    unfolding poll_def un using that by (simp only: sum.case snd_conv)
  have a: "log_step s (poll env fetched s)"
  proof (cases "fst ?tb")
    case (Inl y)
    show ?thesis
    proof (cases "is_exception y")
      case True
      show ?thesis
        unfolding caught [OF Inl True] by (rule log_step_trans [OF l log_step_logger])
    next
      case False
      show ?thesis unfolding passed [OF Inl False] by (rule l)
    qed
  next
    case (Inr u)
    show ?thesis unfolding returned [OF Inr] by (rule l)
  qed
  have b: "error_logged (str_of x) (new_log s (poll env fetched s))"
    if that: "fst ?tb = Inl x" "is_exception x"
    unfolding caught [OF that] by (rule log_step_error_kept [OF l])
  have d: "error_logged (feed_bozo_exception f) (new_log s (poll env fetched s))"
    if h: "fetched = Parsed f" "feed_bozo f"
  proof -
    have tb: "?tb = (Inr (), logger ERROR (''Error parsing RSS feed: '' @ feed_bozo_exception f) ?s0)"
      using h by (simp add: try_block_def)
    have "fst ?tb = Inr ()" unfolding tb by simp
    then have "poll env fetched s = snd ?tb" by (rule returned)
    then have "poll env fetched s = logger ERROR (''Error parsing RSS feed: '' @ feed_bozo_exception f) ?s0"
      unfolding tb by (simp only: snd_conv)
    then show ?thesis using log_step_error_kept [OF log_step_logger] by (simp only:)
  qed
  from a b d show ?thesis by blast
qed

subsection \<open>What leaves a cycle\<close>

text \<open>
  When the endpoint and the pause raise nothing but instances of \<open>Exception\<close>, so does the
  loop: what leaves it is the \<open>AttributeError\<close> of an entry without a title.
\<close>

lemma process_entry_raises:
  assumes "only_exceptions api sleep" "fst (process_entry api sleep chat e n s) = Inl x"
  shows "is_exception x"
proof (cases "candidate s e \<and> entry_title e \<noteq> None")
  case True
  then obtain i t where h: "item_id_of e = Some i" "i \<noteq> []" "i \<notin> sent_item_ids s" "entry_title e = Some t"
    by (auto simp: candidate_def split: option.splits)
  have "\<exists>m. fst (process_entry api sleep chat e n s) = Inr m"
    using True assms(1) by (intro process_entry_candidate_ok) simp_all
  then show ?thesis using assms(2) by simp
next
  case False
  then show ?thesis using assms(2)
    by (auto simp: process_entry_def candidate_def split: option.splits if_splits)
qed

lemma process_entries_raises:
  assumes "only_exceptions api sleep" "fst (process_entries api sleep chat es n s) = Inl x"
  shows "is_exception x"
  using assms(2)
proof (induction es arbitrary: n s)
  case Nil
  then show ?case by simp
next
  case (Cons e es)
  obtain r1 s1 where p: "process_entry api sleep chat e n s = (r1, s1)"
    by (cases "process_entry api sleep chat e n s")
  show ?case
  proof (cases r1)
    case (Inl y)
    then have "fst (process_entry api sleep chat e n s) = Inl x" using Cons.prems p by simp
    with assms(1) show ?thesis by (rule process_entry_raises)
  next
    case (Inr m)
    then have "fst (process_entries api sleep chat es m s1) = Inl x" using Cons.prems p by simp
    then show ?thesis by (rule Cons.IH)
  qed
qed

lemma try_block_raises:
  assumes "only_exceptions api sleep" "\<forall>y. fetched = ParseRaised y \<longrightarrow> is_exception y"
    and "fst (try_block api sleep chat fetched s) = Inl x"
  shows "is_exception x"
proof (cases fetched)
  case (ParseRaised y)
  then show ?thesis using assms(2,3) by (simp add: try_block_def)
next
  case (Parsed f)
  obtain r1 s1 where p: "process_entries api sleep chat (rev (feed_entries f)) 0 s = (r1, s1)"
    by (cases "process_entries api sleep chat (rev (feed_entries f)) 0 s")
  have "fst (process_entries api sleep chat (rev (feed_entries f)) 0 s) = Inl x"
    using assms(3) Parsed p by (cases r1) (auto simp: try_block_def split: if_splits)
  with assms(1) show ?thesis by (rule process_entries_raises)
qed

text \<open>
  \<open>check_rss_feed\<close> returns, unless an exception that is not an \<open>Exception\<close> left its \<open>try\<close>
  block; that exception leaves the function too.
\<close>

lemma check_rss_feed_result:
  "fst (check_rss_feed env fetched s) = Inr () \<or>
   (\<exists>x. fst (check_rss_feed env fetched s) = Inl x \<and> \<not> is_exception x \<and> chat_known env \<and>
        fst (try_block (bot env) (asyncio_sleep env) (chat_of env) fetched
               (logger INFO (''Checking RSS feed: '' @ RSS_FEED_URL) s)) = Inl x)"
proof (cases "chat_known env")
  case False
  then show ?thesis by (auto simp: check_rss_feed_def chat_known_def Let_def)
next
  case True
  show ?thesis
    unfolding check_rss_feed_unfold [OF True, of fetched s] using True
    by (auto split: sum.splits)
qed

section \<open>The claims\<close>

text \<open>
  C1. No duplicate delivery: an id that is in \<open>sent_item_ids\<close> when a poll cycle starts is
  skipped by that cycle. No call to the endpoint is made for it or for any entry that
  has it as its \<open>item_id\<close>, it is not among the ids the cycle records, the file grows only
  by the lines of the recorded ids, and the id stays in the set.
\<close>

theorem no_duplicate_delivery:
  assumes "i \<in> sent_item_ids s"
  shows "i \<notin> ev_item_id ` set (cycle_sends env fetched s) \<and>
         (\<forall>e. item_id_of e = Some i \<longrightarrow> e \<notin> ev_entry ` set (cycle_sends env fetched s)) \<and>
         i \<notin> set (delivered_ids (cycle_sends env fetched s)) \<and>
         file_text (poll env fetched s) =
           file_text s @ id_lines (delivered_ids (cycle_sends env fetched s)) \<and>
         i \<in> sent_item_ids (poll env fetched s)"
proof -
  have st: "cycle_step s (poll env fetched s)" by (rule poll_step)
  have ev: "\<And>ev. ev \<in> set (cycle_sends env fetched s) \<Longrightarrow>
              ev_item_id ev \<noteq> i \<and> item_id_of (ev_entry ev) = Some (ev_item_id ev)"
    using st assms unfolding cycle_step_def cycle_sends_def by blast
  have a: "i \<notin> ev_item_id ` set (cycle_sends env fetched s)" using ev by blast
  have b: "\<forall>e. item_id_of e = Some i \<longrightarrow> e \<notin> ev_entry ` set (cycle_sends env fetched s)"
    using ev by fastforce
  have c: "i \<notin> set (delivered_ids (cycle_sends env fetched s))"
    using a by (auto simp: delivered_ids_def)
  have d: "file_text (poll env fetched s) =
           file_text s @ id_lines (delivered_ids (cycle_sends env fetched s))"
    using st unfolding cycle_step_def cycle_sends_def by blast
  have e: "i \<in> sent_item_ids (poll env fetched s)"
    using st assms unfolding cycle_step_def by blast
  from a b c d e show ?thesis by blast
qed

text \<open>
  The store holds a and b, the feed yields c (newest) and a: the one call of the cycle
  is for c.
\<close>

theorem no_duplicate_delivery_witness:
  "''a'' \<in> sent_item_ids (demo_state [''a'', ''b'']) \<and>
   map ev_item_id (cycle_sends (demo_env (\<lambda>k c t. Delivered))
      (demo_feed [demo_entry ''c'' ''C'', demo_entry ''a'' ''A''])
      (demo_state [''a'', ''b''])) = [''c''] \<and>
   ''a'' \<notin> ev_item_id ` set (cycle_sends (demo_env (\<lambda>k c t. Delivered))
      (demo_feed [demo_entry ''c'' ''C'', demo_entry ''a'' ''A''])
      (demo_state [''a'', ''b'']))"
  using no_duplicate_delivery [of "''a''" "demo_state [''a'', ''b'']"
      "demo_env (\<lambda>k c t. Delivered)" "demo_feed [demo_entry ''c'' ''C'', demo_entry ''a'' ''A'']"]
  by (simp add: run_defs demo_defs)


text \<open>
  C7, as the code has it. No \<open>Exception\<close> escapes a poll cycle: whatever the environment,
  the outcome of the feed fetch (a raised exception, a malformed feed, any list of
  entries), the state of the store and the outcomes of the sends and of the pauses, what
  leaves \<open>check_rss_feed\<close>, if anything does, is not an instance of \<open>Exception\<close>; and when the
  fetch, the endpoint and the pause raise nothing but instances of \<open>Exception\<close>,
  \<open>check_rss_feed\<close> returns. The failures are captured in the log, which only grows: every
  call to the endpoint that failed with an \<open>Exception\<close>, every \<open>Exception\<close> that leaves the
  \<open>try\<close> block and a malformed feed each leave an \<open>ERROR\<close> record that ends with the text of
  the failure.
\<close>

theorem no_exception_escapes:
  "(fst (check_rss_feed env fetched s) = Inl x \<longrightarrow> \<not> is_exception x) \<and>
   (only_exceptions (bot env) (asyncio_sleep env) \<and>
    (\<forall>z. fetched = ParseRaised z \<longrightarrow> is_exception z) \<longrightarrow>
      fst (check_rss_feed env fetched s) = Inr ()) \<and>
   logged (poll env fetched s) = logged s @ new_log s (poll env fetched s) \<and>
   (\<forall>ev \<in> set (cycle_sends env fetched s). failure_logged ev (new_log s (poll env fetched s))) \<and>
   (chat_known env \<and>
    fst (try_block (bot env) (asyncio_sleep env) (chat_of env) fetched
           (logger INFO (''Checking RSS feed: '' @ RSS_FEED_URL) s)) = Inl y \<and> is_exception y \<longrightarrow>
      error_logged (str_of y) (new_log s (poll env fetched s))) \<and>
   (chat_known env \<and> fetched = Parsed f \<and> feed_bozo f \<longrightarrow>
      error_logged (feed_bozo_exception f) (new_log s (poll env fetched s)))"
proof -
  note res = check_rss_feed_result [of env fetched s]
  have a: "fst (check_rss_feed env fetched s) = Inl x \<longrightarrow> \<not> is_exception x"
    using res by auto
  have b: "fst (check_rss_feed env fetched s) = Inr ()"
    if h: "only_exceptions (bot env) (asyncio_sleep env)"
      "\<forall>z. fetched = ParseRaised z \<longrightarrow> is_exception z"
  proof (rule ccontr)
    assume "fst (check_rss_feed env fetched s) \<noteq> Inr ()"
    then obtain w where w: "\<not> is_exception w"
      "fst (try_block (bot env) (asyncio_sleep env) (chat_of env) fetched
              (logger INFO (''Checking RSS feed: '' @ RSS_FEED_URL) s)) = Inl w"
      using res by blast
    have "is_exception w" using h w(2) by (rule try_block_raises)
    with w(1) show False by simp
  qed
  have l: "logged (poll env fetched s) = logged s @ new_log s (poll env fetched s) \<and>
      (\<forall>ev \<in> set (cycle_sends env fetched s). failure_logged ev (new_log s (poll env fetched s)))"
    using check_rss_feed_log [of s env fetched y f] by (simp add: log_step_def cycle_sends_def)
  show ?thesis using a b l check_rss_feed_log [of s env fetched y f] by blast
qed

text \<open>
  The fetch raises an \<open>Exception\<close>: the cycle returns and logs the error. Every send times
  out: the cycle logs the failed send.
\<close>

theorem no_exception_escapes_witness:
  "(only_exceptions (bot (demo_env timeout_api)) (asyncio_sleep (demo_env timeout_api)) \<and>
    is_exception (Exception ''boom'')) \<and>
   fst (check_rss_feed (demo_env timeout_api) (ParseRaised (Exception ''boom''))
          (demo_state [''a''])) = Inr () \<and>
   new_log (demo_state [''a''])
     (poll (demo_env timeout_api) (ParseRaised (Exception ''boom'')) (demo_state [''a''])) =
     [(INFO, ''Checking RSS feed: https://rss.app/feeds/OUYIM0VGlxqKueAS.xml''),
      (ERROR, ''An error occurred during RSS check: boom'')] \<and>
   error_logged ''boom''
     (new_log (demo_state [''a''])
        (poll (demo_env timeout_api) (ParseRaised (Exception ''boom'')) (demo_state [''a'']))) \<and>
   new_log (demo_state [''a''])
     (poll (demo_env timeout_api) (demo_feed [demo_entry ''c'' ''C'']) (demo_state [''a''])) =
     [(INFO, ''Checking RSS feed: https://rss.app/feeds/OUYIM0VGlxqKueAS.xml''),
      (INFO, ''New item found: C''),
      (ERROR, ''Error sending Telegram message for '' @ [SQ] @ ''C'' @ [SQ] @ '': Timed out''),
      (INFO, ''No new items found in this check.'')]"
  using no_exception_escapes [of "demo_env timeout_api" "ParseRaised (Exception ''boom'')"
      "demo_state [''a'']" "BaseException []" "Exception ''boom''"]
  by (simp add: run_defs demo_defs char_defs chat_known_def chat_of_def new_log_def RSS_FEED_URL_def
        only_exceptions_def)

text \<open>
  The claim as stated fails. The awaited send is cancelled: \<open>CancelledError\<close> is not an
  \<open>Exception\<close>, no handler catches it, and it leaves \<open>check_rss_feed\<close> with nothing logged
  about it. So does a cancellation during the pause, after the id was saved.
\<close>

theorem cancelled_send_escapes:
  "fst (check_rss_feed (demo_env cancelled_api) (demo_feed [demo_entry ''c'' ''C''])
          (demo_state [])) = Inl (BaseException []) \<and>
   new_log (demo_state [])
     (poll (demo_env cancelled_api) (demo_feed [demo_entry ''c'' ''C'']) (demo_state [])) =
     [(INFO, ''Checking RSS feed: https://rss.app/feeds/OUYIM0VGlxqKueAS.xml''),
      (INFO, ''New item found: C'')] \<and>
   fst (check_rss_feed
          ((demo_env (\<lambda>k c t. Delivered))\<lparr>asyncio_sleep := \<lambda>k. Some (BaseException [])\<rparr>)
          (demo_feed [demo_entry ''c'' ''C'']) (demo_state [])) = Inl (BaseException []) \<and>
   sent_item_ids (poll
          ((demo_env (\<lambda>k c t. Delivered))\<lparr>asyncio_sleep := \<lambda>k. Some (BaseException [])\<rparr>)
          (demo_feed [demo_entry ''c'' ''C'']) (demo_state [])) = {''c''}"
  by (simp add: run_defs demo_defs new_log_def RSS_FEED_URL_def)

text \<open>
  C6. Atomicity on send failure: when every call the cycle makes for an id fails (the
  full message, and the shorter message if the failure was "message is too long"), the
  id, not in the set before, is not in the set after the cycle and no line is written
  for it: the file grows only by the lines of the ids whose send returned, and when no
  send returned at all the set and the file are unchanged. Every entry with that id is
  then a delivery candidate of the next cycle.
\<close>

theorem failed_send_leaves_id_unrecorded:
  assumes new: "i \<notin> sent_item_ids s"
    and failed: "\<forall>ev \<in> set (cycle_sends env fetched s).
                   ev_item_id ev = i \<longrightarrow> ev_result ev \<noteq> Delivered"
  shows "i \<notin> sent_item_ids (poll env fetched s) \<and>
         i \<notin> set (delivered_ids (cycle_sends env fetched s)) \<and>
         file_text (poll env fetched s) =
           file_text s @ id_lines (delivered_ids (cycle_sends env fetched s)) \<and>
         (delivered_ids (cycle_sends env fetched s) = [] \<longrightarrow>
            sent_items_file (poll env fetched s) = sent_items_file s \<and>
            sent_item_ids (poll env fetched s) = sent_item_ids s) \<and>
         (i \<noteq> [] \<longrightarrow> (\<forall>e. item_id_of e = Some i \<longrightarrow> candidate (poll env fetched s) e))"
proof -
  have st: "cycle_step s (poll env fetched s)" by (rule poll_step)
  have a: "i \<notin> set (delivered_ids (cycle_sends env fetched s))"
    using failed by (auto simp: delivered_ids_def)
  have b: "sent_item_ids (poll env fetched s) =
           sent_item_ids s \<union> set (delivered_ids (cycle_sends env fetched s))"
    using st unfolding cycle_step_def cycle_sends_def by blast
  have c: "file_text (poll env fetched s) =
           file_text s @ id_lines (delivered_ids (cycle_sends env fetched s))"
    using st unfolding cycle_step_def cycle_sends_def by blast
  have d: "delivered_ids (cycle_sends env fetched s) = [] \<longrightarrow>
            sent_items_file (poll env fetched s) = sent_items_file s"
    using st unfolding cycle_step_def cycle_sends_def by blast
  from a b new have e: "i \<notin> sent_item_ids (poll env fetched s)" by simp
  then have f: "i \<noteq> [] \<longrightarrow>
      (\<forall>e. item_id_of e = Some i \<longrightarrow> candidate (poll env fetched s) e)"
    by (simp add: candidate_def)
  from a b c d e f show ?thesis by simp
qed

text \<open>
  The endpoint rejects both the full and the shorter message for c: two calls, and the
  store still holds a and b only.
\<close>

theorem failed_send_leaves_id_unrecorded_witness:
  "''c'' \<notin> sent_item_ids (demo_state [''a'', ''b'']) \<and>
   map (\<lambda>ev. (ev_item_id ev, ev_short ev, ev_result ev))
     (cycle_sends (demo_env too_long_api) (demo_feed [demo_entry ''c'' ''C''])
        (demo_state [''a'', ''b''])) =
     [(''c'', False, Raised (Exception ''Message is too long'')),
      (''c'', True, Raised (Exception ''Message is too long''))] \<and>
   ''c'' \<notin> sent_item_ids
      (poll (demo_env too_long_api) (demo_feed [demo_entry ''c'' ''C''])
         (demo_state [''a'', ''b''])) \<and>
   sent_items_file
      (poll (demo_env too_long_api) (demo_feed [demo_entry ''c'' ''C''])
         (demo_state [''a'', ''b''])) =
     Some (''a'' @ [NL] @ ''b'' @ [NL]) \<and>
   candidate
      (poll (demo_env too_long_api) (demo_feed [demo_entry ''c'' ''C''])
         (demo_state [''a'', ''b''])) (demo_entry ''c'' ''C'')"
  using failed_send_leaves_id_unrecorded [of "''c''" "demo_state [''a'', ''b'']"
      "demo_env too_long_api" "demo_feed [demo_entry ''c'' ''C'']"]
  by (simp add: run_defs demo_defs char_defs)

text \<open>
  C8. Missing identity: an entry whose \<open>id\<close> is absent or empty and whose \<open>link\<close> is absent
  or empty is dropped. Processing it makes no call to the endpoint, leaves the set and
  the file as they are, leaves the count \<open>new_items_found\<close> as it is, and logs one
  warning and no error; and no call of a whole poll cycle is for such an entry.
\<close>

theorem missing_identity_dropped:
  assumes "entry_id e = None \<or> entry_id e = Some []"
    and "entry_link e = None \<or> entry_link e = Some []"
  shows "process_entry api sleep chat e new_items_found s =
           (Inr new_items_found,
            logger WARNING (''Entry without id or link: '' @ dict_get (entry_title e) ''N/A'') s) \<and>
         sends (snd (process_entry api sleep chat e new_items_found s)) = sends s \<and>
         sent_item_ids (snd (process_entry api sleep chat e new_items_found s)) = sent_item_ids s \<and>
         sent_items_file (snd (process_entry api sleep chat e new_items_found s)) = sent_items_file s \<and>
         ERROR \<notin> fst ` set (drop (length (logged s))
                    (logged (snd (process_entry api sleep chat e new_items_found s)))) \<and>
         e \<notin> ev_entry ` set (cycle_sends env fetched s)"
proof -
  have p: "process_entry api sleep chat e new_items_found s =
           (Inr new_items_found,
            logger WARNING (''Entry without id or link: '' @ dict_get (entry_title e) ''N/A'') s)"
    using assms by (auto simp: process_entry_def item_id_of_def)
  have "item_id_of e = None \<or> item_id_of e = Some []"
    using assms by (auto simp: item_id_of_def)
  moreover have "\<And>ev. ev \<in> set (cycle_sends env fetched s) \<Longrightarrow>
      item_id_of (ev_entry ev) = Some (ev_item_id ev) \<and> ev_item_id ev \<noteq> []"
    using poll_step [of s env fetched] unfolding cycle_step_def cycle_sends_def by blast
  ultimately have "e \<notin> ev_entry ` set (cycle_sends env fetched s)" by force
  then show ?thesis using p by simp
qed

theorem missing_identity_dropped_witness:
  "(entry_id no_identity_entry = None \<and> entry_link no_identity_entry = Some []) \<and>
   process_entry too_long_api (\<lambda>k. None) ''42'' no_identity_entry 0 (demo_state [''a'']) =
     (Inr 0, demo_state [''a''] \<lparr>logged := [(WARNING, ''Entry without id or link: T'')]\<rparr>) \<and>
   cycle_sends (demo_env too_long_api) (demo_feed [no_identity_entry]) (demo_state [''a'']) = []"
  using missing_identity_dropped [of no_identity_entry too_long_api "\<lambda>k. None" "''42''" 0
      "demo_state [''a'']"
      "demo_env too_long_api" "demo_feed [no_identity_entry]"]
  by (simp add: run_defs demo_defs)

text \<open>
  C9. Identity fallback only on an absent key: for an entry whose \<open>id\<close> key is present and
  empty and whose link is non-empty, the identifier is the empty id, not the link; the
  entry is dropped as one without identity, and no call of a poll cycle is for it.
\<close>

theorem empty_id_no_link_fallback:
  assumes "entry_id e = Some []" and "entry_link e = Some l" and "l \<noteq> []"
  shows "item_id_of e = Some [] \<and> item_id_of e \<noteq> entry_link e \<and>
         process_entry api sleep chat e new_items_found s =
           (Inr new_items_found,
            logger WARNING (''Entry without id or link: '' @ dict_get (entry_title e) ''N/A'') s) \<and>
         e \<notin> ev_entry ` set (cycle_sends env fetched s)"
proof -
  have i: "item_id_of e = Some []" using assms by (simp add: item_id_of_def)
  have "\<And>ev. ev \<in> set (cycle_sends env fetched s) \<Longrightarrow>
      item_id_of (ev_entry ev) = Some (ev_item_id ev) \<and> ev_item_id ev \<noteq> []"
    using poll_step [of s env fetched] unfolding cycle_step_def cycle_sends_def by blast
  with i have "e \<notin> ev_entry ` set (cycle_sends env fetched s)" by force
  then show ?thesis using i assms by (simp add: process_entry_def)
qed

theorem empty_id_no_link_fallback_witness:
  "(entry_id empty_id_entry = Some [] \<and> entry_link empty_id_entry = Some ''http://example.org/x'') \<and>
   item_id_of empty_id_entry = Some [] \<and>
   process_entry too_long_api (\<lambda>k. None) ''42'' empty_id_entry 0 (demo_state [''a'']) =
     (Inr 0, demo_state [''a''] \<lparr>logged := [(WARNING, ''Entry without id or link: T'')]\<rparr>) \<and>
   cycle_sends (demo_env (\<lambda>k c t. Delivered)) (demo_feed [empty_id_entry]) (demo_state [''a'']) = []"
  using empty_id_no_link_fallback [of empty_id_entry "''http://example.org/x''" too_long_api
      "\<lambda>k. None" "''42''" 0 "demo_state [''a'']" "demo_env (\<lambda>k c t. Delivered)" "demo_feed [empty_id_entry]"]
  by (simp add: run_defs demo_defs)

text \<open>
  C4, as the code has it. Fallback: when the call with the full message of a new entry
  fails with an \<open>Exception\<close> whose text contains "message is too long" (in any letter case),
  the next call is for the same entry and carries the shorter message: title and link,
  no summary. The shorter message is not truncated; its length is 33 plus the lengths of
  the escaped title and the escaped link, so it is within \<open>MAX_MESSAGE_LENGTH\<close> exactly when
  those two lengths sum to at most 4063.
\<close>

theorem oversize_falls_back_to_short_form:
  assumes "item_id_of e = Some i" "i \<noteq> []" "i \<notin> sent_item_ids s" "entry_title e = Some title"
    and "link = dict_get (entry_link e) []"
    and "description = dict_get (entry_summary e) (dict_get (entry_description e) [])"
    and "api (length (sends s)) chat (full_message title link description) = Raised x"
    and "is_exception x"
    and "str_contains ''message is too long'' (lower (str_of x))"
  shows "map (\<lambda>ev. (ev_entry ev, ev_short ev, ev_text ev))
           (new_sends s (snd (process_entry api sleep chat e n s))) =
           [(e, False, full_message title link description), (e, True, short_message title link)] \<and>
         length (short_message title link) =
           33 + length (html_escape title) + length (html_escape link) \<and>
         (length (short_message title link) \<le> MAX_MESSAGE_LENGTH \<longleftrightarrow>
            length (html_escape title) + length (html_escape link) \<le> 4063)"
  using process_entry_oversize [of e i s title link description api chat x sleep n] assms
  by (simp add: length_short_message MAX_MESSAGE_LENGTH_def)

theorem oversize_falls_back_to_short_form_witness:
  "(item_id_of (demo_entry ''c'' ''C'') = Some ''c'' \<and>
    ''c'' \<notin> sent_item_ids (demo_state [''a'']) \<and>
    str_contains ''message is too long'' (lower ''Message is too long'')) \<and>
   map (\<lambda>ev. (ev_short ev, ev_text ev))
     (new_sends (demo_state [''a''])
        (snd (process_entry too_long_api (\<lambda>k. None) ''42'' (demo_entry ''c'' ''C'') 0 (demo_state [''a''])))) =
     [(False, ''<b>C</b>'' @ [NL, NL] @ ''text'' @ [NL, NL] @ ''<a href='' @ [DQ]
                @ ''http://example.org/c'' @ [DQ] @ ''>Read more</a>''),
      (True, ''<b>C</b>'' @ [NL, NL] @ ''<a href='' @ [SQ] @ ''http://example.org/c'' @ [SQ]
                @ ''>Read more</a>'')] \<and>
   length (short_message ''C'' ''http://example.org/c'') = 54"
proof -
  have h1: "item_id_of (demo_entry ''c'' ''C'') = Some ''c''"
    by (simp add: demo_entry_def item_id_of_def)
  have h2: "''c'' \<noteq> []" by simp
  have h3: "''c'' \<notin> sent_item_ids (demo_state [''a''])" by (simp add: demo_state_def)
  have h4: "entry_title (demo_entry ''c'' ''C'') = Some ''C''" by (simp add: demo_entry_def)
  have h5: "''http://example.org/c'' = dict_get (entry_link (demo_entry ''c'' ''C'')) []"
    by (simp add: demo_entry_def dict_get_def)
  have h6: "''text'' = dict_get (entry_summary (demo_entry ''c'' ''C''))
                        (dict_get (entry_description (demo_entry ''c'' ''C'')) [])"
    by (simp add: demo_entry_def dict_get_def)
  have h7: "too_long_api (length (sends (demo_state [''a'']))) ''42''
              (full_message ''C'' ''http://example.org/c'' ''text'') =
            Raised (Exception ''Message is too long'')"
    by (simp add: too_long_api_def)
  have hx: "is_exception (Exception ''Message is too long'')" by simp
  have h8: "str_contains ''message is too long'' (lower (str_of (Exception ''Message is too long'')))"
    by (simp add: char_defs)
  have esc: "html_escape ''C'' = ''C''" "html_escape ''http://example.org/c'' = ''http://example.org/c''"
    by (simp_all add: html_escape_def replace_char_def)
  have fm: "full_message ''C'' ''http://example.org/c'' ''text'' =
      ''<b>C</b>'' @ [NL, NL] @ ''text'' @ [NL, NL] @ ''<a href='' @ [DQ]
                @ ''http://example.org/c'' @ [DQ] @ ''>Read more</a>''"
    by (simp add: full_message_def esc max_desc_len_def MAX_MESSAGE_LENGTH_def Let_def)
  have sm: "short_message ''C'' ''http://example.org/c'' =
      ''<b>C</b>'' @ [NL, NL] @ ''<a href='' @ [SQ] @ ''http://example.org/c'' @ [SQ]
                @ ''>Read more</a>''"
    by (simp add: short_message_def esc)
  have r: "map (\<lambda>ev. (ev_entry ev, ev_short ev, ev_text ev))
           (new_sends (demo_state [''a''])
             (snd (process_entry too_long_api (\<lambda>k. None) ''42'' (demo_entry ''c'' ''C'') 0 (demo_state [''a''])))) =
           [(demo_entry ''c'' ''C'', False, full_message ''C'' ''http://example.org/c'' ''text''),
            (demo_entry ''c'' ''C'', True, short_message ''C'' ''http://example.org/c'')]"
    and l: "length (short_message ''C'' ''http://example.org/c'') =
           33 + length (html_escape ''C'') + length (html_escape ''http://example.org/c'')"
    using oversize_falls_back_to_short_form [of "demo_entry ''c'' ''C''" "''c''" "demo_state [''a'']"
        "''C''" "''http://example.org/c''" "''text''" too_long_api "''42''"
        "Exception ''Message is too long''" "\<lambda>k. None" 0, OF h1 h2 h3 h4 h5 h6 h7 hx h8] by blast+
  have "map (\<lambda>ev. (ev_short ev, ev_text ev))
     (new_sends (demo_state [''a''])
        (snd (process_entry too_long_api (\<lambda>k. None) ''42'' (demo_entry ''c'' ''C'') 0 (demo_state [''a''])))) =
     map (\<lambda>(e, b, t). (b, t)) (map (\<lambda>ev. (ev_entry ev, ev_short ev, ev_text ev))
           (new_sends (demo_state [''a''])
             (snd (process_entry too_long_api (\<lambda>k. None) ''42'' (demo_entry ''c'' ''C'') 0 (demo_state [''a''])))))"
    by simp
  also have "\<dots> = [(False, full_message ''C'' ''http://example.org/c'' ''text''),
                     (True, short_message ''C'' ''http://example.org/c'')]"
    unfolding r by simp
  finally have m: "map (\<lambda>ev. (ev_short ev, ev_text ev))
     (new_sends (demo_state [''a''])
        (snd (process_entry too_long_api (\<lambda>k. None) ''42'' (demo_entry ''c'' ''C'') 0 (demo_state [''a''])))) =
      [(False, full_message ''C'' ''http://example.org/c'' ''text''),
                     (True, short_message ''C'' ''http://example.org/c'')]" .
  have l54: "length (short_message ''C'' ''http://example.org/c'') = 54"
    using l by (simp add: esc)
  have h8': "str_contains ''message is too long'' (lower ''Message is too long'')"
    using h8 by simp
  show ?thesis
    unfolding m fm using h1 h3 h8' l54 sm by simp
qed

text \<open>
  The claim as stated fails: a title of 4100 letters gives a shorter message above the
  limit.
\<close>

theorem short_form_over_limit:
  "MAX_MESSAGE_LENGTH < length (short_message (replicate 4100 (CHR ''A'')) ''http://example.org/x'')"
  by (simp add: length_short_message html_escape_plain MAX_MESSAGE_LENGTH_def)

text \<open>
  C3. Truncation bound. The budget \<open>max_desc_len\<close> subtracts the length of the link as it
  is in the feed, while the message carries the escaped link inside a link element: with
  six ampersands in the link and a summary of 5000 characters, longer than the budget,
  the full message has 4099 characters, above \<open>MAX_MESSAGE_LENGTH\<close>.
\<close>

theorem full_message_over_limit:
  "max_desc_len (''<b>'' @ html_escape ''t'' @ ''</b>'' @ [NL, NL]) ''http://x/?a&b&c&d&e&f&g''
     < int (length (replicate 5000 (CHR ''x''))) \<and>
   length (full_message ''t'' ''http://x/?a&b&c&d&e&f&g'' (replicate 5000 (CHR ''x''))) = 4099 \<and>
   MAX_MESSAGE_LENGTH = 4096"
  by (simp add: full_message_def max_desc_len_def slice_to_def MAX_MESSAGE_LENGTH_def Let_def
        html_escape_def replace_char_def)

text \<open>
  C2. Order preservation. The loop goes through the reversed feed, and line 76 gives an
  entry without a title the title "No Title"; but the log call of line 74 reads
  \<open>entry.title\<close> first, which raises for such an entry and ends the loop. The feed yields
  new, mid and an oldest entry without a title, the store is empty and every send would
  return: all three are delivery candidates, oldest first, yet the cycle makes no call at
  all and logs the \<open>AttributeError\<close>. With a title on the oldest entry the calls are for
  old, mid, new.
\<close>

theorem untitled_entry_stops_cycle:
  "filter (candidate (demo_state []))
     (rev [demo_entry ''new'' ''N'', demo_entry ''mid'' ''M'', untitled_entry]) =
     [untitled_entry, demo_entry ''mid'' ''M'', demo_entry ''new'' ''N''] \<and>
   cycle_sends (demo_env (\<lambda>k c t. Delivered))
     (demo_feed [demo_entry ''new'' ''N'', demo_entry ''mid'' ''M'', untitled_entry])
     (demo_state []) = [] \<and>
   new_log (demo_state [])
     (poll (demo_env (\<lambda>k c t. Delivered))
        (demo_feed [demo_entry ''new'' ''N'', demo_entry ''mid'' ''M'', untitled_entry])
        (demo_state [])) =
     [(INFO, ''Checking RSS feed: https://rss.app/feeds/OUYIM0VGlxqKueAS.xml''),
      (ERROR, ''An error occurred during RSS check: object has no attribute '' @ [SQ] @ ''title''
                @ [SQ])] \<and>
   first_attempts (cycle_sends (demo_env (\<lambda>k c t. Delivered))
      (demo_feed [demo_entry ''new'' ''N'', demo_entry ''mid'' ''M'', demo_entry ''old'' ''O''])
      (demo_state [])) =
     [demo_entry ''old'' ''O'', demo_entry ''mid'' ''M'', demo_entry ''new'' ''N'']"
  by (simp add: run_defs demo_defs candidate_def first_attempts_def new_log_def RSS_FEED_URL_def)

text \<open>
  C10. The shorter message always renders a link element: when a send is rejected as too
  long (it raises an \<open>Exception\<close> whose text says so), the text of the retry is the escaped
  title in bold followed by an anchor around the escaped link. It never ends with the
  footer "No link available."; for an entry without a link, where the full message does
  end with that footer, the anchor has an empty target.
\<close>

theorem short_form_always_anchor:
  assumes "item_id_of e = Some i" "i \<noteq> []" "i \<notin> sent_item_ids s" "entry_title e = Some title"
    and "link = dict_get (entry_link e) []"
    and "description = dict_get (entry_summary e) (dict_get (entry_description e) [])"
    and "api (length (sends s)) chat (full_message title link description) = Raised x"
    and "is_exception x"
    and "str_contains ''message is too long'' (lower (str_of x))"
  shows "map ev_text (new_sends s (snd (process_entry api sleep chat e n s))) =
           [full_message title link description,
            ''<b>'' @ html_escape title @ ''</b>'' @ [NL, NL] @
            ''<a href='' @ [SQ] @ html_escape link @ [SQ] @ ''>Read more</a>''] \<and>
         \<not> suffix ''No link available.''
            (''<b>'' @ html_escape title @ ''</b>'' @ [NL, NL] @
             ''<a href='' @ [SQ] @ html_escape link @ [SQ] @ ''>Read more</a>'') \<and>
         (link = [] \<longrightarrow>
            suffix ''No link available.'' (full_message title link description) \<and>
            last (map ev_text (new_sends s (snd (process_entry api sleep chat e n s)))) =
              ''<b>'' @ html_escape title @ ''</b>'' @ [NL, NL] @ ''<a href='' @ [SQ, SQ]
                @ ''>Read more</a>'')"
proof -
  have r: "map (\<lambda>ev. (ev_entry ev, ev_short ev, ev_text ev))
           (new_sends s (snd (process_entry api sleep chat e n s))) =
           [(e, False, full_message title link description), (e, True, short_message title link)]"
    using process_entry_oversize [of e i s title link description api chat x sleep n, OF assms] .
  have "map ev_text (new_sends s (snd (process_entry api sleep chat e n s))) =
        map (\<lambda>(e, b, t). t) (map (\<lambda>ev. (ev_entry ev, ev_short ev, ev_text ev))
           (new_sends s (snd (process_entry api sleep chat e n s))))"
    by (simp add: comp_def)
  then have m: "map ev_text (new_sends s (snd (process_entry api sleep chat e n s))) =
        [full_message title link description, short_message title link]"
    unfolding r by simp
  have sm: "short_message title link =
      ''<b>'' @ html_escape title @ ''</b>'' @ [NL, NL] @
      ''<a href='' @ [SQ] @ html_escape link @ [SQ] @ ''>Read more</a>''"
    by (simp add: short_message_def)
  have nf: "\<not> suffix ''No link available.'' (short_message title link)"
    by (rule not_footer_suffix)
  have e0: "html_escape [] = []" by (simp add: html_escape_def replace_char_def)
  show ?thesis
    unfolding m using nf footer_suffix [of title description] unfolding sm
    by (auto simp: e0)
qed

text \<open>An entry with no link: the full message ends with the footer, the retry with an anchor.\<close>

theorem short_form_always_anchor_witness:
  "(item_id_of no_link_entry = Some ''n'' \<and> entry_link no_link_entry = None \<and>
    ''n'' \<notin> sent_item_ids (demo_state [''a''])) \<and>
   map ev_text (new_sends (demo_state [''a''])
      (snd (process_entry too_long_api (\<lambda>k. None) ''42'' no_link_entry 0 (demo_state [''a''])))) =
     [''<b>T</b>'' @ [NL, NL] @ ''text'' @ [NL, NL] @ ''No link available.'',
      ''<b>T</b>'' @ [NL, NL] @ ''<a href='' @ [SQ, SQ] @ ''>Read more</a>'']"
proof -
  have h1: "item_id_of no_link_entry = Some ''n''"
    by (simp add: no_link_entry_def item_id_of_def)
  have h2: "''n'' \<noteq> []" by simp
  have h3: "''n'' \<notin> sent_item_ids (demo_state [''a''])" by (simp add: demo_state_def)
  have h4: "entry_title no_link_entry = Some ''T''" by (simp add: no_link_entry_def)
  have h5: "[] = dict_get (entry_link no_link_entry) []"
    by (simp add: no_link_entry_def dict_get_def)
  have h6: "''text'' = dict_get (entry_summary no_link_entry)
                        (dict_get (entry_description no_link_entry) [])"
    by (simp add: no_link_entry_def dict_get_def)
  have h7: "too_long_api (length (sends (demo_state [''a'']))) ''42''
              (full_message ''T'' [] ''text'') = Raised (Exception ''Message is too long'')"
    by (simp add: too_long_api_def)
  have hx: "is_exception (Exception ''Message is too long'')" by simp
  have h8: "str_contains ''message is too long'' (lower (str_of (Exception ''Message is too long'')))"
    by (simp add: char_defs)
  have esc: "html_escape ''T'' = ''T''" "html_escape [] = []"
    by (simp_all add: html_escape_def replace_char_def)
  have fm: "full_message ''T'' [] ''text'' =
      ''<b>T</b>'' @ [NL, NL] @ ''text'' @ [NL, NL] @ ''No link available.''"
    by (simp add: full_message_def esc max_desc_len_def MAX_MESSAGE_LENGTH_def Let_def)
  have m: "map ev_text (new_sends (demo_state [''a''])
      (snd (process_entry too_long_api (\<lambda>k. None) ''42'' no_link_entry 0 (demo_state [''a''])))) =
     [full_message ''T'' [] ''text'',
      ''<b>'' @ html_escape ''T'' @ ''</b>'' @ [NL, NL] @
            ''<a href='' @ [SQ] @ html_escape [] @ [SQ] @ ''>Read more</a>'']"
    using short_form_always_anchor [of no_link_entry "''n''" "demo_state [''a'']" "''T''" "[]"
        "''text''" too_long_api "''42''" "Exception ''Message is too long''" "\<lambda>k. None" 0,
        OF h1 h2 h3 h4 h5 h6 h7 hx h8] by blast
  have l: "entry_link no_link_entry = None" by (simp add: no_link_entry_def)
  show ?thesis unfolding m fm using h1 h3 l by (simp add: esc)
qed

text \<open>
  C5, as the code has it. Store round-trip: an id that is non-empty, is unchanged by
  \<open>strip\<close> (no whitespace at either end) and contains no line break, recorded on a file that
  is absent, empty or ends with a newline, is in the set the next load yields, and the
  file again ends with a newline. Loading ignores blank lines: a blank line in the file
  changes nothing, and the empty string is never loaded. Loading while no file exists
  leaves the set as it is, which at startup is the empty set.
\<close>

theorem store_round_trip:
  "(i \<noteq> [] \<and> strip i = i \<and> NL \<notin> set i \<and> CR \<notin> set i \<and>
    (file_text s = [] \<or> last (file_text s) = NL) \<longrightarrow>
      i \<in> sent_item_ids (load_sent_items (save_sent_item i s)) \<and>
      last (file_text (save_sent_item i s)) = NL) \<and>
   ((a = [] \<or> last a = NL) \<longrightarrow>
      sent_item_ids (load_sent_items (s\<lparr>sent_items_file := Some (a @ NL # b)\<rparr>)) =
      sent_item_ids (load_sent_items (s\<lparr>sent_items_file := Some (a @ b)\<rparr>))) \<and>
   [] \<notin> sent_item_ids (load_sent_items (s\<lparr>sent_items_file := Some c\<rparr>)) \<and>
   (sent_items_file s = None \<longrightarrow> sent_item_ids (load_sent_items s) = sent_item_ids s) \<and>
   sent_item_ids (load_sent_items initial_state) = {}"
proof -
  have p1: "i \<in> sent_item_ids (load_sent_items (save_sent_item i s)) \<and>
      last (file_text (save_sent_item i s)) = NL"
    if h: "i \<noteq> []" "strip i = i" "NL \<notin> set i" "CR \<notin> set i"
      "file_text s = [] \<or> last (file_text s) = NL"
  proof -
    have f: "sent_items_file (save_sent_item i s) = Some (file_text s @ i @ [NL])"
      by (simp add: save_sent_item_def)
    have "file_lines (file_text s @ i @ [NL]) = file_lines (file_text s) @ [i @ [NL]]"
      using h(3,4,5) by (rule file_lines_saved)
    moreover have "strip (i @ [NL]) = i"
      using strip_fixed [OF h(2,1)] h(1) by (intro strip_line) auto
    ultimately have "i \<in> loaded_ids (file_text s @ i @ [NL])"
      using h(1) by (force simp: loaded_ids_def)
    then show ?thesis using load_file [OF f] by simp
  qed
  have p2: "sent_item_ids (load_sent_items (s\<lparr>sent_items_file := Some (a @ NL # b)\<rparr>)) =
      sent_item_ids (load_sent_items (s\<lparr>sent_items_file := Some (a @ b)\<rparr>))"
    if h: "a = [] \<or> last a = NL"
  proof -
    have "loaded_ids (a @ NL # b) = loaded_ids (a @ b)"
      using file_lines_blank [OF h, of b] file_lines_append [OF h, of b]
      by (simp add: loaded_ids_def)
    then show ?thesis by (simp add: load_file)
  qed
  have p3: "[] \<notin> sent_item_ids (load_sent_items (s\<lparr>sent_items_file := Some c\<rparr>))"
    by (auto simp: load_file loaded_ids_def)
  have p4: "sent_items_file s = None \<longrightarrow> sent_item_ids (load_sent_items s) = sent_item_ids s"
    by (simp add: load_no_file)
  have p5: "sent_item_ids (load_sent_items initial_state) = {}"
    by (simp add: load_no_file initial_state_def)
  from p1 p2 p3 p4 p5 show ?thesis by blast
qed

theorem store_round_trip_witness:
  "(strip ''guid-1'' = ''guid-1'' \<and> last (file_text (demo_state [''b''])) = NL) \<and>
   ''guid-1'' \<in> sent_item_ids (load_sent_items (save_sent_item ''guid-1'' (demo_state [''b''])))"
  using store_round_trip [of "''guid-1''" "demo_state [''b'']" "[]" "[]" "[]"]
  by (simp add: demo_state_def file_text_def strip_def isspace_def)

text \<open>
  The claim as stated fails for an id with a leading space: the load yields the stripped
  id, not the id that was recorded.
\<close>

theorem store_round_trip_counterexample:
  "'' a'' \<notin> sent_item_ids (load_sent_items (save_sent_item '' a'' initial_state))"
  by (simp add: file_defs)

end
